theory Spec2Isabelle
  imports Main "HOL-Library.Word" "HOL-Library.Signed_Division"
begin

unbundle bit_operations_syntax

section \<open>C integers, faults and the hardware state\<close>

text \<open>
  The firmware of \<^verbatim>\<open>stm32_src/smartagri.c\<close> runs on an STM32F072RB, where
  \<^verbatim>\<open>int\<close> and \<^verbatim>\<open>unsigned int\<close> have 32 bits. A register is a 32-bit
  word. An \<^verbatim>\<open>int\<close> is a 32-bit word read in two's complement by \<open>sint\<close>.
  Signed arithmetic is computed on the mathematical integers and its result
  is checked against the range of \<^verbatim>\<open>int\<close>: a result outside the range is a
  signed overflow, which C leaves undefined, and the model stops there with
  the fault \<open>Signed_Overflow\<close>. Division and remainder truncate towards zero
  (\<open>sdiv\<close>, \<open>smod\<close>).
\<close>

type_synonym reg = "32 word"
type_synonym c_int = "32 word"

datatype fault =
    No_Response       \<comment> \<open>the hardware never presents the value a read is waiting for\<close>
  | Signed_Overflow   \<comment> \<open>a signed operation leaves the range of \<^verbatim>\<open>int\<close>\<close>
  | Buffer_Overrun    \<comment> \<open>an index outside \<^verbatim>\<open>buf[12]\<close>\<close>
  | Bad_Shift         \<comment> \<open>a shift count outside the width of \<^verbatim>\<open>int\<close>\<close>

definition INT_MIN :: int where
  "INT_MIN = - (2 ^ 31)"

definition INT_MAX :: int where
  "INT_MAX = 2 ^ 31 - 1"

definition c_int_of :: "int \<Rightarrow> fault + c_int" where
  "c_int_of k = (if INT_MIN \<le> k \<and> k \<le> INT_MAX then Inr (word_of_int k) else Inl Signed_Overflow)"

definition bind_res :: "fault + 'a \<Rightarrow> ('a \<Rightarrow> fault + 'b) \<Rightarrow> fault + 'b" where
  "bind_res m f = (case m of Inl e \<Rightarrow> Inl e | Inr x \<Rightarrow> f x)"

text \<open>
  The state of the hardware as the program sees it. Configuration registers
  and the output data register hold what was last written to them. The
  registers that the peripherals drive (status flags, conversion results,
  pin levels) are volatile: for each of them the state holds the values that
  the successive reads will return, in order. A read takes the next value;
  a busy-wait takes values until one shows the flag it polls. When the
  values run out the run ends with \<open>No_Response\<close>: a busy-wait whose flag
  never comes has no timeout and never returns.
  \<open>USART2_TDR_out\<close> is the sequence of bytes written to the transmit data
  register, that is, the text sent over the serial link.

  Every register of the source is volatile, so the order of the accesses is
  part of what the program does. \<open>trace\<close> is the sequence of all register
  accesses so far, in program order: every read with the value it returned
  and every write with the value written.
\<close>

datatype regname =
    R_RCC_AHBENR | R_RCC_APB2ENR | R_RCC_APB1ENR
  | R_GPIOA_MODER | R_GPIOA_ODR | R_GPIOA_IDR | R_GPIOA_PUPDR | R_GPIOA_AFR0
  | R_ADC_ISR | R_ADC_CR | R_ADC_CHSELR | R_ADC_DR
  | R_USART2_CR1 | R_USART2_BRR | R_USART2_ISR | R_USART2_TDR

datatype event = Rd regname reg | Wr regname reg

record hw =
  RCC_AHBENR :: reg
  RCC_APB2ENR :: reg
  RCC_APB1ENR :: reg
  GPIOA_MODER :: reg
  GPIOA_ODR :: reg
  GPIOA_PUPDR :: reg
  GPIOA_AFR0 :: reg
  ADC_CHSELR :: reg
  ADC_CR :: reg
  USART2_CR1 :: reg
  USART2_BRR :: reg
  GPIOA_IDR_in :: "reg list"
  ADC_ISR_in :: "reg list"
  ADC_CR_in :: "reg list"
  ADC_DR_in :: "reg list"
  USART2_ISR_in :: "reg list"
  USART2_TDR_out :: "char list"
  trace :: "event list"

fun read_in :: "reg list \<Rightarrow> fault + (reg \<times> reg list)" where
  "read_in [] = Inl No_Response"
| "read_in (v # vs) = Inr (v, vs)"

text \<open>
  \<^verbatim>\<open>while(!(R & mask));\<close> reads R until a bit of the mask is set. The result
  is the values read, the last of which ends the wait, and the values left.
\<close>

fun poll_set :: "reg \<Rightarrow> reg list \<Rightarrow> fault + (reg list \<times> reg list)" where
  "poll_set m [] = Inl No_Response"
| "poll_set m (v # vs) =
     (if v AND m \<noteq> 0 then Inr ([v], vs)
      else bind_res (poll_set m vs) (\<lambda>(seen, rest). Inr (v # seen, rest)))"

text \<open>\<^verbatim>\<open>while(R & mask);\<close> reads R until the bits of the mask are clear.\<close>

fun poll_clear :: "reg \<Rightarrow> reg list \<Rightarrow> fault + (reg list \<times> reg list)" where
  "poll_clear m [] = Inl No_Response"
| "poll_clear m (v # vs) =
     (if v AND m \<noteq> 0 then bind_res (poll_clear m vs) (\<lambda>(seen, rest). Inr (v # seen, rest))
      else Inr ([v], vs))"

section \<open>Blocking output primitives\<close>

definition uart_putchar :: "char \<Rightarrow> hw \<Rightarrow> fault + hw" where
  "uart_putchar c s =
     (case poll_set (push_bit 7 1) (USART2_ISR_in s) of
        Inl e \<Rightarrow> Inl e
      | Inr (seen, rest) \<Rightarrow>
          Inr (s\<lparr>USART2_ISR_in := rest,
                 USART2_TDR_out := USART2_TDR_out s @ [c],
                 trace := trace s @ map (Rd R_USART2_ISR) seen @ [Wr R_USART2_TDR (of_char c)]\<rparr>))"

text \<open>
  A C string is the characters before its terminating NUL: the list is the
  memory from the pointer on, and the loop also stops at its end, where the
  terminator of a string literal stands.
\<close>

fun uart_puts :: "char list \<Rightarrow> hw \<Rightarrow> fault + hw" where
  "uart_puts [] s = Inr s"
| "uart_puts (c # cs) s =
     (if c = CHR 0x00 then Inr s else bind_res (uart_putchar c s) (uart_puts cs))"

text \<open>
  The first loop of \<^verbatim>\<open>uart_putnum\<close>: \<^verbatim>\<open>while(num > 0) { buf[i++] = '0' + (num % 10); num /= 10; }\<close>.
  The buffer is a list of 12 characters and every access checks its index.
\<close>

function putnum_digits :: "c_int \<Rightarrow> nat \<Rightarrow> char list \<Rightarrow> fault + (nat \<times> char list)" where
  "putnum_digits num i buf =
     (if 0 < sint num then
        if i < length buf then
          (case c_int_of (sint num sdiv 10) of
             Inl e \<Rightarrow> Inl e
           | Inr q \<Rightarrow> putnum_digits q (Suc i) (buf[i := char_of (of_char (CHR ''0'') + sint num smod 10)]))
        else Inl Buffer_Overrun
      else Inr (i, buf))"
  by pat_completeness auto

termination putnum_digits
proof (relation "measure (\<lambda>(num, i, buf). nat (sint num))", goal_cases)
  case 1
  show ?case by simp
next
  case (2 num i buf q)
  from 2(3) have "sint q = sint num sdiv 10"
    by (auto simp: c_int_of_def INT_MIN_def INT_MAX_def sint_sbintrunc'
        signed_take_bit_int_eq_self_iff split: if_splits)
  with 2(1) show ?case by (simp add: signed_divide_int_def sgn_if)
qed

text \<open>
  The second loop: \<^verbatim>\<open>while(i > 0) uart_putchar(buf[--i]);\<close>. In
  \<^verbatim>\<open>uart_putnum\<close> the buffer starts with no defined content; the model
  fills it with NUL, and only positions written by the first loop are read.
\<close>

fun putnum_emit :: "nat \<Rightarrow> char list \<Rightarrow> hw \<Rightarrow> fault + hw" where
  "putnum_emit 0 buf s = Inr s"
| "putnum_emit (Suc i) buf s =
     (if i < length buf then bind_res (uart_putchar (buf ! i) s) (putnum_emit i buf)
      else Inl Buffer_Overrun)"

definition uart_putnum :: "c_int \<Rightarrow> hw \<Rightarrow> fault + hw" where
  "uart_putnum num s =
     (let buf = replicate 12 (CHR 0x00); i = 0 in
      if num = 0 then uart_putchar (CHR ''0'') s
      else
        bind_res (if sint num < 0
                  then bind_res (uart_putchar (CHR ''-'') s)
                         (\<lambda>s1. bind_res (c_int_of (- sint num)) (\<lambda>n. Inr (n, s1)))
                  else Inr (num, s))
          (\<lambda>(num1, s1). bind_res (putnum_digits num1 i buf)
             (\<lambda>(i1, buf1). putnum_emit i1 buf1 s1)))"

section \<open>Delay\<close>

text \<open>
  \<^verbatim>\<open>delay_ms\<close> counts in two nested loops and touches no register (the
  inner counter is a volatile local), so the loops hand the state on as it
  is. The counters stay below their bounds and are mathematical integers
  here.
\<close>

function delay_inner :: "int \<Rightarrow> 'a \<Rightarrow> 'a" where
  "delay_inner j s = (if j < 8000 then delay_inner (j + 1) s else s)"
  by pat_completeness auto
termination
  by (relation "measure (\<lambda>(j, s). nat (8000 - j))") auto

function delay_outer :: "int \<Rightarrow> c_int \<Rightarrow> 'a \<Rightarrow> 'a" where
  "delay_outer i ms s = (if i < sint ms then delay_outer (i + 1) ms (delay_inner 0 s) else s)"
  by pat_completeness auto
termination
  by (relation "measure (\<lambda>(i, ms, s). nat (sint ms - i))") auto

definition delay_ms :: "c_int \<Rightarrow> hw \<Rightarrow> hw" where
  "delay_ms ms s = delay_outer 0 ms s"

section \<open>Analog input\<close>

text \<open>
  \<^verbatim>\<open>read_adc\<close> selects the channel, starts a conversion (a read-modify-write
  of \<^verbatim>\<open>ADC_CR\<close>), waits for the end-of-conversion flag and returns the data
  register, converted from \<^verbatim>\<open>unsigned int\<close> to \<^verbatim>\<open>int\<close> (the same 32 bits).
  The shift \<^verbatim>\<open>1 << channel\<close> is taken as defined for the counts 0 to 31, as
  the masks \<^verbatim>\<open>1 << n\<close> of the source are, \<^verbatim>\<open>1 << 31\<close> included.
\<close>

definition read_adc :: "c_int \<Rightarrow> hw \<Rightarrow> fault + (c_int \<times> hw)" where
  "read_adc channel s =
     (if 0 \<le> sint channel \<and> sint channel < 32 then
        bind_res (read_in (ADC_CR_in s)) (\<lambda>(cr, cr_rest).
        bind_res (poll_set (push_bit 2 1) (ADC_ISR_in s)) (\<lambda>(seen, isr_rest).
        bind_res (read_in (ADC_DR_in s)) (\<lambda>(dr, dr_rest).
          Inr (dr, s\<lparr>ADC_CHSELR := push_bit (nat (sint channel)) 1,
                      ADC_CR := cr OR push_bit 2 1,
                      ADC_CR_in := cr_rest,
                      ADC_ISR_in := isr_rest,
                      ADC_DR_in := dr_rest,
                      trace := trace s @
                        [Wr R_ADC_CHSELR (push_bit (nat (sint channel)) 1),
                         Rd R_ADC_CR cr, Wr R_ADC_CR (cr OR push_bit 2 1)] @
                        map (Rd R_ADC_ISR) seen @ [Rd R_ADC_DR dr]\<rparr>))))
      else Inl Bad_Shift)"

section \<open>Initialisation\<close>

text \<open>
  A statement \<^verbatim>\<open>R |= m\<close> or \<^verbatim>\<open>R &= m\<close> reads the register and writes it
  back; the configuration registers return what they hold.
\<close>

definition init_clocks :: "hw \<Rightarrow> hw" where
  "init_clocks s =
     (let ahb = RCC_AHBENR s OR (push_bit 17 1 OR push_bit 18 1);
          apb2 = RCC_APB2ENR s OR push_bit 9 1;
          apb1 = RCC_APB1ENR s OR push_bit 17 1
      in s\<lparr>RCC_AHBENR := ahb, RCC_APB2ENR := apb2, RCC_APB1ENR := apb1,
           trace := trace s @
             [Rd R_RCC_AHBENR (RCC_AHBENR s), Wr R_RCC_AHBENR ahb,
              Rd R_RCC_APB2ENR (RCC_APB2ENR s), Wr R_RCC_APB2ENR apb2,
              Rd R_RCC_APB1ENR (RCC_APB1ENR s), Wr R_RCC_APB1ENR apb1]\<rparr>)"

definition init_gpio :: "hw \<Rightarrow> hw" where
  "init_gpio s =
     (let m1 = GPIOA_MODER s OR (push_bit 0 3 OR push_bit 2 3);
          m2 = m1 AND NOT (push_bit 4 3 OR push_bit 6 3);
          m3 = m2 OR (push_bit 4 2 OR push_bit 6 2);
          afr = GPIOA_AFR0 s OR (push_bit 8 1 OR push_bit 12 1);
          m4 = m3 AND NOT (push_bit 10 3);
          m5 = m4 OR push_bit 10 1;
          m6 = m5 AND NOT (push_bit 8 3);
          pupdr = GPIOA_PUPDR s OR push_bit 8 1
      in s\<lparr>GPIOA_MODER := m6, GPIOA_AFR0 := afr, GPIOA_PUPDR := pupdr,
           trace := trace s @
             [Rd R_GPIOA_MODER (GPIOA_MODER s), Wr R_GPIOA_MODER m1,
              Rd R_GPIOA_MODER m1, Wr R_GPIOA_MODER m2,
              Rd R_GPIOA_MODER m2, Wr R_GPIOA_MODER m3,
              Rd R_GPIOA_AFR0 (GPIOA_AFR0 s), Wr R_GPIOA_AFR0 afr,
              Rd R_GPIOA_MODER m3, Wr R_GPIOA_MODER m4,
              Rd R_GPIOA_MODER m4, Wr R_GPIOA_MODER m5,
              Rd R_GPIOA_MODER m5, Wr R_GPIOA_MODER m6,
              Rd R_GPIOA_PUPDR (GPIOA_PUPDR s), Wr R_GPIOA_PUPDR pupdr]\<rparr>)"

definition init_usart :: "hw \<Rightarrow> hw" where
  "init_usart s =
     (let cr1 = USART2_CR1 s OR (push_bit 0 1 OR push_bit 3 1 OR push_bit 2 1)
      in s\<lparr>USART2_BRR := 69, USART2_CR1 := cr1,
           trace := trace s @
             [Wr R_USART2_BRR 69, Rd R_USART2_CR1 (USART2_CR1 s), Wr R_USART2_CR1 cr1]\<rparr>)"

definition init_adc :: "hw \<Rightarrow> fault + hw" where
  "init_adc s =
     bind_res (read_in (ADC_CR_in s)) (\<lambda>(cr1, rest1).
     bind_res (poll_clear (push_bit 31 1) rest1) (\<lambda>(cal, rest2).
     bind_res (read_in rest2) (\<lambda>(cr2, rest3).
     bind_res (poll_set (push_bit 0 1) (ADC_ISR_in s)) (\<lambda>(rdy, isr_rest).
       Inr (s\<lparr>ADC_CR := cr2 OR push_bit 0 1, ADC_CR_in := rest3, ADC_ISR_in := isr_rest,
               trace := trace s @
                 [Rd R_ADC_CR cr1, Wr R_ADC_CR (cr1 OR push_bit 31 1)] @
                 map (Rd R_ADC_CR) cal @
                 [Rd R_ADC_CR cr2, Wr R_ADC_CR (cr2 OR push_bit 0 1)] @
                 map (Rd R_ADC_ISR) rdy\<rparr>)))))"

section \<open>The record and the main loop\<close>

definition send_json :: "c_int \<Rightarrow> c_int \<Rightarrow> c_int \<Rightarrow> c_int \<Rightarrow> c_int \<Rightarrow> hw \<Rightarrow> fault + hw" where
  \<open>send_json moisture temp ph rain water_level s =
     bind_res (uart_puts ''{"moisture":'' s) (\<lambda>s.
     bind_res (uart_putnum moisture s) (\<lambda>s.
     bind_res (uart_puts '',"temp":'' s) (\<lambda>s.
     bind_res (uart_putnum temp s) (\<lambda>s.
     bind_res (uart_puts '',"ph":'' s) (\<lambda>s.
     bind_res (uart_putnum ph s) (\<lambda>s.
     bind_res (uart_puts '',"rain":'' s) (\<lambda>s.
     bind_res (uart_putnum rain s) (\<lambda>s.
     bind_res (uart_puts '',"water_level":'' s) (\<lambda>s.
     bind_res (uart_putnum water_level s) (\<lambda>s.
     uart_puts [CHR ''}'', CHR 0x0D, CHR 0x0A] s))))))))))\<close>

text \<open>Line 148: \<^verbatim>\<open>int rain = (GPIOA_IDR & (1 << 4)) ? 0 : 1;\<close>\<close>

definition rain_of :: "reg \<Rightarrow> c_int" where
  "rain_of idr = (if idr AND push_bit 4 1 \<noteq> 0 then 0 else 1)"

text \<open>Line 151: \<^verbatim>\<open>int moisture = (moisture_raw * 100) / 4095;\<close>\<close>

definition moisture_of :: "c_int \<Rightarrow> fault + c_int" where
  "moisture_of moisture_raw =
     bind_res (c_int_of (sint moisture_raw * 100)) (\<lambda>p. c_int_of (sint p sdiv 4095))"

text \<open>Line 159: \<^verbatim>\<open>GPIOA_ODR ^= (1 << 5);\<close>\<close>

definition toggle_led :: "hw \<Rightarrow> hw" where
  "toggle_led s =
     s\<lparr>GPIOA_ODR := GPIOA_ODR s XOR push_bit 5 1,
       trace := trace s @
         [Rd R_GPIOA_ODR (GPIOA_ODR s), Wr R_GPIOA_ODR (GPIOA_ODR s XOR push_bit 5 1)]\<rparr>"

definition banner :: string where
  "banner = ''STM32F072RB SmartAgri Started'' @ [CHR 0x0D, CHR 0x0A]"

text \<open>Lines 136 to 142 of \<^verbatim>\<open>main\<close>: everything before the loop.\<close>

definition main_startup :: "hw \<Rightarrow> fault + hw" where
  "main_startup s =
     bind_res (init_adc (init_usart (init_gpio (init_clocks s)))) (\<lambda>s1.
       uart_puts banner (delay_ms 1000 s1))"

text \<open>Lines 145 to 161: one pass through the body of \<^verbatim>\<open>while(1)\<close>.\<close>

definition main_iteration :: "hw \<Rightarrow> fault + hw" where
  "main_iteration s =
     bind_res (read_adc 0 s) (\<lambda>(moisture_raw, s1).
     bind_res (read_adc 1 s1) (\<lambda>(ph_raw, s2).
     bind_res (read_in (GPIOA_IDR_in s2)) (\<lambda>(idr, idr_rest).
       let s3 = s2\<lparr>GPIOA_IDR_in := idr_rest, trace := trace s2 @ [Rd R_GPIOA_IDR idr]\<rparr>;
           rain = rain_of idr
       in bind_res (moisture_of moisture_raw) (\<lambda>moisture.
          let temp = 25; ph = 7; water_level = 75
          in bind_res (send_json moisture temp ph rain water_level s3) (\<lambda>s4.
               Inr (delay_ms 500 (toggle_led s4)))))))"

text \<open>
  The loop never ends. \<open>main_loop k\<close> is the state after \<open>k\<close> completed
  passes, and \<open>main k\<close> the state after the start-up and \<open>k\<close> passes.
\<close>

fun main_loop :: "nat \<Rightarrow> hw \<Rightarrow> fault + hw" where
  "main_loop 0 s = Inr s"
| "main_loop (Suc k) s = bind_res (main_iteration s) (main_loop k)"

definition main :: "nat \<Rightarrow> hw \<Rightarrow> fault + hw" where
  "main k s = bind_res (main_startup s) (main_loop k)"

section \<open>Decimal text\<close>

text \<open>
  The specification speaks of the decimal text of an integer and of parsing
  the transmitted text as a decimal integer. These two definitions follow
  the specification, not the source: \<open>decimal\<close> writes an integer with a
  minus sign when it is negative and without leading zeros, and
  \<open>parse_decimal\<close> reads an optional minus sign followed by at least one
  digit and nothing else.
\<close>

fun digits :: "nat \<Rightarrow> string" where
  "digits n = (if n = 0 then [] else digits (n div 10) @ [char_of (48 + n mod 10)])"

definition decimal :: "int \<Rightarrow> string" where
  "decimal k =
     (if k = 0 then ''0'' else if k < 0 then CHR ''-'' # digits (nat (- k)) else digits (nat k))"

definition digit_val :: "char \<Rightarrow> nat option" where
  "digit_val c =
     (if of_char (CHR ''0'') \<le> (of_char c :: nat) \<and> (of_char c :: nat) \<le> of_char (CHR ''9'')
      then Some (of_char c - of_char (CHR ''0'')) else None)"

fun parse_digits :: "nat \<Rightarrow> string \<Rightarrow> nat option" where
  "parse_digits acc [] = Some acc"
| "parse_digits acc (c # cs) =
     (case digit_val c of None \<Rightarrow> None | Some d \<Rightarrow> parse_digits (10 * acc + d) cs)"

definition parse_decimal :: "string \<Rightarrow> int option" where
  "parse_decimal cs =
     (case cs of
        [] \<Rightarrow> None
      | c # rest \<Rightarrow>
          if c = CHR ''-'' then
            (if rest = [] then None else map_option (\<lambda>n. - int n) (parse_digits 0 rest))
          else map_option int (parse_digits 0 cs))"

text \<open>The record of the serial protocol, as the specification writes it.\<close>

definition json_text :: "int \<Rightarrow> int \<Rightarrow> int \<Rightarrow> int \<Rightarrow> int \<Rightarrow> string" where
  \<open>json_text moisture temp ph rain water_level =
     ''{"moisture":'' @ decimal moisture @ '',"temp":'' @ decimal temp @
     '',"ph":'' @ decimal ph @ '',"rain":'' @ decimal rain @
     '',"water_level":'' @ decimal water_level @ ''}'' @ [CHR 0x0D, CHR 0x0A]\<close>

text \<open>
  What \<^verbatim>\<open>uart_putnum\<close> sent, read back: the text added to the link parses to
  the number that was passed in.
\<close>

definition roundtrip :: "c_int \<Rightarrow> hw \<Rightarrow> bool" where
  "roundtrip num s =
     (case uart_putnum num s of
        Inl e \<Rightarrow> False
      | Inr s' \<Rightarrow> parse_decimal (drop (length (USART2_TDR_out s)) (USART2_TDR_out s')) = Some (sint num))"

text \<open>The number of reads of \<^verbatim>\<open>USART2_ISR\<close> still to come that show TXE set.\<close>

definition txe_count :: "hw \<Rightarrow> nat" where
  "txe_count s = length (filter (\<lambda>v. v AND push_bit 7 1 \<noteq> 0) (USART2_ISR_in s))"

section \<open>Sending a text, and a test bench\<close>

text \<open>
  \<open>send_polls out vs\<close> is the accesses made when the text \<open>out\<close> is sent
  character by character, each after a wait for TXE, with \<open>vs\<close> the reads of
  the status register to come, and what is left of \<open>vs\<close>. \<open>transmit out s\<close>
  is the state after that. The output functions are shown below to be
  instances of \<open>transmit\<close>.
\<close>

fun send_polls :: "string \<Rightarrow> reg list \<Rightarrow> fault + (event list \<times> reg list)" where
  "send_polls [] vs = Inr ([], vs)"
| "send_polls (c # cs) vs =
     bind_res (poll_set (push_bit 7 1) vs) (\<lambda>(seen, rest).
     bind_res (send_polls cs rest) (\<lambda>(evs, rest').
       Inr (map (Rd R_USART2_ISR) seen @ Wr R_USART2_TDR (of_char c) # evs, rest')))"

definition transmit :: "string \<Rightarrow> hw \<Rightarrow> fault + hw" where
  "transmit out s =
     (case send_polls out (USART2_ISR_in s) of
        Inl e \<Rightarrow> Inl e
      | Inr (evs, rest) \<Rightarrow>
          Inr (s\<lparr>USART2_ISR_in := rest, USART2_TDR_out := USART2_TDR_out s @ out,
                 trace := trace s @ evs\<rparr>))"

text \<open>The values written to the transmit data register in a run of accesses.\<close>

fun tdr_bytes :: "event list \<Rightarrow> reg list" where
  "tdr_bytes [] = []"
| "tdr_bytes (Wr R_USART2_TDR v # evs) = v # tdr_bytes evs"
| "tdr_bytes (e # evs) = tdr_bytes evs"

text \<open>
  A bench whose peripherals answer at once, for \<open>n\<close> reads of each status
  register: the transmitter shows TXE, the converter shows ADRDY and EOC and
  has finished its calibration. The conversion results and the levels of the
  input port are given.
\<close>

definition bench :: "reg list \<Rightarrow> reg list \<Rightarrow> nat \<Rightarrow> hw" where
  "bench drs idrs n =
     \<lparr>RCC_AHBENR = 0, RCC_APB2ENR = 0, RCC_APB1ENR = 0, GPIOA_MODER = 0x28000000, GPIOA_ODR = 0,
      GPIOA_PUPDR = 0x24000000, GPIOA_AFR0 = 0, ADC_CHSELR = 0, ADC_CR = 0, USART2_CR1 = 0,
      USART2_BRR = 0, GPIOA_IDR_in = idrs, ADC_ISR_in = replicate n 5,
      ADC_CR_in = replicate n 0, ADC_DR_in = drs, USART2_ISR_in = replicate n 0xC0,
      USART2_TDR_out = [], trace = []\<rparr>"

text \<open>The offsets at which a text occurs in another.\<close>

definition occurrences :: "'a list \<Rightarrow> 'a list \<Rightarrow> nat list" where
  "occurrences pat xs = filter (\<lambda>j. take (length pat) (drop j xs) = pat) [0..<Suc (length xs)]"

text \<open>
  Hardware that answers every poll at its first read, with conversion results
  in the range of the converter, for \<open>k\<close> passes of the loop: every flag the
  program waits for is set in every value still to be read, the calibration
  bit reads clear, and enough values are left.
\<close>

definition responsive :: "nat \<Rightarrow> hw \<Rightarrow> bool" where
  "responsive k s \<longleftrightarrow>
     list_all (\<lambda>v. v AND push_bit 7 1 \<noteq> 0) (USART2_ISR_in s) \<and> 128 * k \<le> length (USART2_ISR_in s)
   \<and> list_all (\<lambda>v. v AND push_bit 2 1 \<noteq> 0 \<and> v AND push_bit 0 1 \<noteq> 0) (ADC_ISR_in s)
   \<and> 4 * k \<le> length (ADC_ISR_in s)
   \<and> list_all (\<lambda>v. v AND push_bit 31 1 = 0) (ADC_CR_in s) \<and> 4 * k \<le> length (ADC_CR_in s)
   \<and> list_all (\<lambda>v. 0 \<le> sint v \<and> sint v \<le> 4095) (ADC_DR_in s) \<and> 2 * k \<le> length (ADC_DR_in s)
   \<and> k \<le> length (GPIOA_IDR_in s)"

section \<open>Basic facts\<close>

declare delay_inner.simps [simp del]
declare delay_outer.simps [simp del]
declare putnum_digits.simps [simp del]
declare digits.simps [simp del]

lemma bind_res_Inr [simp]: "bind_res (Inr x) f = f x"
  by (simp add: bind_res_def)

lemma bind_res_Inl [simp]: "bind_res (Inl e) f = Inl e"
  by (simp add: bind_res_def)

lemma bind_res_assoc: "bind_res (bind_res m f) g = bind_res m (\<lambda>x. bind_res (f x) g)"
  by (cases m) simp_all

lemma bind_res_eq_Inr: "bind_res m f = Inr y \<longleftrightarrow> (\<exists>x. m = Inr x \<and> f x = Inr y)"
  by (cases m) simp_all

lemma delay_inner_id: "delay_inner j s = s"
  by (induction j s rule: delay_inner.induct) (subst delay_inner.simps, simp)

lemma delay_outer_id: "delay_outer i ms s = s"
  by (induction i ms s rule: delay_outer.induct) (subst delay_outer.simps, simp add: delay_inner_id)

lemma delay_ms_id [simp]: "delay_ms ms s = s"
  by (simp add: delay_ms_def delay_outer_id)

lemma poll_set_Inr:
  "poll_set m vs = Inr (seen, rest) \<Longrightarrow> vs = seen @ rest \<and> seen \<noteq> [] \<and> last seen AND m \<noteq> 0"
proof (induction vs arbitrary: seen rest)
  case Nil
  then show ?case by simp
next
  case (Cons v vs)
  show ?case
  proof (cases "v AND m \<noteq> 0")
    case True
    with Cons.prems show ?thesis by auto
  next
    case False
    with Cons.prems obtain seen' where s: "poll_set m vs = Inr (seen', rest)" "seen = v # seen'"
      by (auto simp: bind_res_eq_Inr)
    from Cons.IH [OF s(1)] s(2) show ?thesis by auto
  qed
qed

lemma send_polls_append:
  "send_polls (a @ b) vs =
     bind_res (send_polls a vs) (\<lambda>(e1, r1).
       bind_res (send_polls b r1) (\<lambda>(e2, r2). Inr (e1 @ e2, r2)))"
proof (induction a arbitrary: vs)
  case Nil
  show ?case by (cases "send_polls b vs") auto
next
  case (Cons c a)
  show ?case
  proof (cases "poll_set (push_bit 7 1) vs")
    case (Inl e)
    then show ?thesis by simp
  next
    case (Inr p)
    obtain seen rest where p: "p = (seen, rest)" by (cases p)
    note ps = Inr [unfolded p]
    show ?thesis
    proof (cases "send_polls a rest")
      case (Inl e)
      with ps show ?thesis by (simp add: Cons.IH)
    next
      case a: (Inr q)
      obtain e1 r1 where q: "q = (e1, r1)" by (cases q)
      from ps a show ?thesis
        by (cases "send_polls b r1") (auto simp: Cons.IH q)
    qed
  qed
qed

lemma transmit_Nil [simp]: "transmit [] s = Inr s"
  by (simp add: transmit_def)

lemma transmit_append:
  "transmit (a @ b) s = bind_res (transmit a s) (transmit b)"
proof (cases "send_polls a (USART2_ISR_in s)")
  case (Inl e)
  then show ?thesis by (simp add: transmit_def send_polls_append)
next
  case (Inr q)
  obtain e1 r1 where q: "q = (e1, r1)" by (cases q)
  show ?thesis
    by (cases "send_polls b r1") (auto simp: transmit_def send_polls_append Inr q)
qed

lemma uart_putchar_transmit: "uart_putchar c s = transmit [c] s"
  by (cases "poll_set (push_bit 7 1) (USART2_ISR_in s)")
     (auto simp: uart_putchar_def transmit_def)

lemma transmit_Cons: "transmit (c # cs) s = bind_res (uart_putchar c s) (transmit cs)"
  using transmit_append [of "[c]" cs s] by (simp add: uart_putchar_transmit)

lemma uart_puts_transmit:
  "uart_puts cs s = transmit (takeWhile (\<lambda>c. c \<noteq> CHR 0x00) cs) s"
proof (induction cs arbitrary: s)
  case Nil
  show ?case by simp
next
  case (Cons c cs)
  show ?case by (cases "uart_putchar c s") (simp_all add: transmit_Cons Cons)
qed

lemma c_int_of_Inr: "c_int_of k = Inr q \<Longrightarrow> sint q = k \<and> INT_MIN \<le> k \<and> k \<le> INT_MAX"
  by (auto simp: c_int_of_def INT_MIN_def INT_MAX_def sint_sbintrunc'
      signed_take_bit_int_eq_self_iff split: if_splits)

lemma c_int_of_range:
  "INT_MIN \<le> k \<Longrightarrow> k \<le> INT_MAX \<Longrightarrow> \<exists>q. c_int_of k = Inr q \<and> sint q = k"
  by (simp add: c_int_of_def INT_MIN_def INT_MAX_def sint_sbintrunc' signed_take_bit_int_eq_self_iff)

lemma sint_range: "INT_MIN \<le> sint (w :: c_int) \<and> sint w \<le> INT_MAX"
  using sint_ge [of w] sint_lt [of w] by (simp add: INT_MIN_def INT_MAX_def)

lemma digit_char: "0 < k \<Longrightarrow> char_of (48 + k smod 10 :: int) = char_of (48 + nat k mod 10)"
proof -
  assume k: "0 < k"
  then have "k smod 10 = k mod 10" by (simp add: signed_modulo_int_def sgn_if)
  moreover have "k mod 10 = int (nat k mod 10)" using k by (simp add: zmod_int)
  ultimately have "48 + k smod 10 = int (48 + nat k mod 10)" by simp
  then show ?thesis by (simp only: char_of_nat)
qed

lemma putnum_digits_eq:
  "i + length (digits (nat (sint num))) \<le> length buf \<Longrightarrow>
   putnum_digits num i buf =
     Inr (i + length (digits (nat (sint num))),
          take i buf @ rev (digits (nat (sint num))) @ drop (i + length (digits (nat (sint num)))) buf)"
proof (induction num i buf rule: putnum_digits.induct)
  case (1 num i buf)
  show ?case
  proof (cases "0 < sint num")
    case False
    then have "digits (nat (sint num)) = []" by (simp add: digits.simps)
    with False show ?thesis by (simp add: putnum_digits.simps)
  next
    case True
    let ?n = "nat (sint num)"
    let ?d = "char_of (48 + ?n mod 10) :: char"
    have n: "?n \<noteq> 0" using True by simp
    have ds: "digits ?n = digits (?n div 10) @ [?d]"
      using n by (subst digits.simps) simp
    have sd: "sint num sdiv 10 = sint num div 10"
      using True by (simp add: signed_divide_int_def sgn_if)
    have "INT_MIN \<le> sint num div 10" "sint num div 10 \<le> INT_MAX"
      using True sint_range [of num] by (simp_all add: INT_MIN_def INT_MAX_def)
    then obtain q where q: "c_int_of (sint num sdiv 10) = Inr q" "sint q = sint num div 10"
      using c_int_of_range sd by metis
    have nq: "nat (sint q) = ?n div 10"
      using True q(2) by (simp add: nat_div_distrib)
    have i: "i < length buf" using "1.prems" ds by simp
    let ?buf = "buf[i := char_of (of_char (CHR ''0'') + sint num smod 10)]"
    have buf: "?buf = buf[i := ?d]" using digit_char [OF True] by simp
    have len: "Suc i + length (digits (nat (sint q))) \<le> length ?buf"
      using "1.prems" ds nq by simp
    have ih: "putnum_digits q (Suc i) ?buf =
      Inr (Suc i + length (digits (nat (sint q))),
           take (Suc i) ?buf @ rev (digits (nat (sint q))) @ drop (Suc i + length (digits (nat (sint q)))) ?buf)"
      using "1.IH" [OF True i q(1) len] .
    have tk: "take (Suc i) ?buf = take i buf @ [?d]"
      using i by (simp add: digit_char [OF True] take_Suc_conv_app_nth)
    have dr: "drop (Suc i + length (digits (?n div 10))) ?buf = drop (i + length (digits ?n)) buf"
      by (simp add: ds)
    have "putnum_digits num i buf = putnum_digits q (Suc i) ?buf"
      using True i q(1) by (subst putnum_digits.simps) simp
    also have "\<dots> = Inr (i + length (digits ?n), take i buf @ rev (digits ?n) @ drop (i + length (digits ?n)) buf)"
      unfolding ih nq tk dr by (simp add: ds)
    finally show ?thesis .
  qed
qed

lemma putnum_emit_transmit:
  "i \<le> length buf \<Longrightarrow> putnum_emit i buf s = transmit (rev (take i buf)) s"
proof (induction i arbitrary: s)
  case 0
  show ?case by simp
next
  case (Suc i)
  then have i: "i < length buf" by simp
  have "putnum_emit (Suc i) buf s = bind_res (uart_putchar (buf ! i) s) (putnum_emit i buf)"
    using i by simp
  also have "\<dots> = bind_res (uart_putchar (buf ! i) s) (transmit (rev (take i buf)))"
    using Suc.IH i by (cases "uart_putchar (buf ! i) s") simp_all
  also have "\<dots> = transmit (buf ! i # rev (take i buf)) s"
    by (simp add: transmit_Cons)
  finally show ?case using i by (simp add: take_Suc_conv_app_nth)
qed

lemma length_digits: "n < 10 ^ k \<Longrightarrow> length (digits n) \<le> k"
proof (induction k arbitrary: n)
  case 0
  then show ?case by (simp add: digits.simps)
next
  case (Suc k)
  show ?case
  proof (cases "n = 0")
    case True
    then show ?thesis by (simp add: digits.simps)
  next
    case False
    have "n div 10 < 10 ^ k" using Suc.prems by (simp add: less_mult_imp_div_less mult.commute)
    then have "length (digits (n div 10)) \<le> k" by (rule Suc.IH)
    then show ?thesis using False by (subst digits.simps) simp
  qed
qed

lemma length_digits_int: "length (digits (nat (sint (w :: c_int)))) \<le> 10"
proof -
  have "nat (sint w) < 10 ^ 10" using sint_lt [of w] by simp
  then show ?thesis by (rule length_digits)
qed

lemma putnum_positive:
  assumes "0 < sint num"
  shows "bind_res (putnum_digits num 0 (replicate 12 (CHR 0x00))) (\<lambda>(i1, buf1). putnum_emit i1 buf1 s)
         = transmit (digits (nat (sint num))) s"
proof -
  let ?ds = "digits (nat (sint num))"
  let ?buf = "replicate 12 (CHR 0x00)"
  have len: "0 + length ?ds \<le> length ?buf" using length_digits_int [of num] by simp
  have "putnum_digits num 0 ?buf = Inr (length ?ds, rev ?ds @ drop (length ?ds) ?buf)"
    using putnum_digits_eq [OF len] by simp
  moreover have "putnum_emit (length ?ds) (rev ?ds @ drop (length ?ds) ?buf) s = transmit ?ds s"
    by (subst putnum_emit_transmit) simp_all
  ultimately show ?thesis by simp
qed

lemma uart_putnum_transmit:
  "sint num \<noteq> INT_MIN \<Longrightarrow> uart_putnum num s = transmit (decimal (sint num)) s"
proof -
  assume ne: "sint num \<noteq> INT_MIN"
  consider "num = 0" | "0 < sint num" | "sint num < 0" "num \<noteq> 0"
    using signed_eq_0_iff [of num, where ?'a = int] by fastforce
  then show ?thesis
  proof cases
    case 1
    then show ?thesis by (simp add: uart_putnum_def decimal_def uart_putchar_transmit)
  next
    case 2
    then have "num \<noteq> 0" by auto
    with 2 show ?thesis
      using putnum_positive [OF 2, of s] by (simp add: uart_putnum_def decimal_def)
  next
    case 3
    have "INT_MIN \<le> - sint num" "- sint num \<le> INT_MAX"
      using ne sint_range [of num] 3 by (simp_all add: INT_MIN_def INT_MAX_def)
    then obtain n where n: "c_int_of (- sint num) = Inr n" "sint n = - sint num"
      using c_int_of_range by blast
    have pos: "0 < sint n" using n 3 by simp
    have "uart_putnum num s = bind_res (uart_putchar (CHR ''-'') s) (\<lambda>s1.
            bind_res (putnum_digits n 0 (replicate 12 (CHR 0x00))) (\<lambda>(i1, buf1). putnum_emit i1 buf1 s1))"
      using 3 n by (cases "uart_putchar (CHR ''-'') s") (simp_all add: uart_putnum_def)
    also have "\<dots> = bind_res (uart_putchar (CHR ''-'') s) (transmit (digits (nat (sint n))))"
      using putnum_positive [OF pos] by simp
    also have "\<dots> = transmit (CHR ''-'' # digits (nat (- sint num))) s"
      by (simp add: transmit_Cons n)
    finally show ?thesis using 3 by (simp add: decimal_def)
  qed
qed

lemma uart_putnum_INT_MIN:
  "sint num = INT_MIN \<Longrightarrow>
   uart_putnum num s = bind_res (uart_putchar (CHR ''-'') s) (\<lambda>s1. Inl Signed_Overflow)"
proof -
  assume m: "sint num = INT_MIN"
  then have "num \<noteq> 0" by (auto simp: INT_MIN_def)
  moreover have "c_int_of (- sint num) = Inl Signed_Overflow"
    using m by (simp add: c_int_of_def INT_MIN_def INT_MAX_def)
  ultimately show ?thesis
    using m by (cases "uart_putchar (CHR ''-'') s") (simp_all add: uart_putnum_def INT_MIN_def)
qed


lemma bit_led_mask: "bit (push_bit 5 1 :: reg) n \<longleftrightarrow> n = 5"
  unfolding bit_push_bit_iff bit_1_iff by auto

lemma toggle_bits:
  "bit (GPIOA_ODR (toggle_led s)) n = (if n = 5 then \<not> bit (GPIOA_ODR s) 5 else bit (GPIOA_ODR s) n)"
proof -
  have odr: "GPIOA_ODR (toggle_led s) = GPIOA_ODR s XOR push_bit 5 1"
    by (simp add: toggle_led_def)
  show ?thesis
    unfolding odr bit_xor_iff bit_led_mask by auto
qed

lemma moisture_of_eq:
  assumes "0 \<le> sint raw" "sint raw \<le> 4095"
  shows "\<exists>m. moisture_of raw = Inr m \<and> sint m = sint raw * 100 div 4095"
proof -
  let ?p = "sint raw * 100"
  have "INT_MIN \<le> ?p" "?p \<le> INT_MAX"
    using assms by (simp_all add: INT_MIN_def INT_MAX_def)
  then obtain p where p: "c_int_of ?p = Inr p" "sint p = ?p"
    using c_int_of_range by blast
  have sd: "?p sdiv 4095 = ?p div 4095"
    using assms by (simp add: signed_divide_int_def sgn_if)
  have "0 \<le> ?p div 4095" "?p div 4095 \<le> 100"
    using assms by (simp_all add: pos_imp_zdiv_nonneg_iff)
  then have "INT_MIN \<le> ?p div 4095" "?p div 4095 \<le> INT_MAX"
    by (simp_all add: INT_MIN_def INT_MAX_def)
  then obtain m where m: "c_int_of (?p div 4095) = Inr m" "sint m = ?p div 4095"
    using c_int_of_range by blast
  have "moisture_of raw = c_int_of (sint p sdiv 4095)"
    unfolding moisture_of_def p(1) by (simp only: bind_res_Inr)
  also have "\<dots> = Inr m"
    unfolding p(2) sd by (rule m(1))
  finally show ?thesis using m(2) by blast
qed

lemma tdr_bytes_append: "tdr_bytes (a @ b) = tdr_bytes a @ tdr_bytes b"
  by (induction a rule: tdr_bytes.induct) simp_all

lemma tdr_bytes_reads: "tdr_bytes (map (Rd r) vs) = []"
  by (induction vs) simp_all

lemma send_polls_tdr:
  "send_polls out vs = Inr (evs, rest) \<Longrightarrow> tdr_bytes evs = map of_char out"
proof (induction out arbitrary: vs evs rest)
  case Nil
  then show ?case by simp
next
  case (Cons c out)
  then obtain seen r1 evs1 where p: "poll_set (push_bit 7 1) vs = Inr (seen, r1)"
    and q: "send_polls out r1 = Inr (evs1, rest)"
    and e: "evs = map (Rd R_USART2_ISR) seen @ Wr R_USART2_TDR (of_char c) # evs1"
    by (auto simp: bind_res_eq_Inr)
  from Cons.IH [OF q] show ?case
    by (simp add: e tdr_bytes_append tdr_bytes_reads)
qed

lemma send_polls_subset:
  "send_polls out vs = Inr (evs, rest) \<Longrightarrow> set rest \<subseteq> set vs"
proof (induction out arbitrary: vs evs rest)
  case Nil
  then show ?case by simp
next
  case (Cons c out)
  then obtain seen r1 evs1 where p: "poll_set (push_bit 7 1) vs = Inr (seen, r1)"
    and q: "send_polls out r1 = Inr (evs1, rest)"
    by (auto simp: bind_res_eq_Inr)
  from poll_set_Inr [OF p] Cons.IH [OF q] show ?case by auto
qed

lemma poll_set_fault: "poll_set m vs = Inl e \<Longrightarrow> e = No_Response"
proof (induction vs)
  case Nil
  then show ?case by simp
next
  case (Cons v vs)
  then show ?case by (cases "poll_set m vs") (auto split: if_splits)
qed

lemma send_polls_fault: "send_polls out vs = Inl e \<Longrightarrow> e = No_Response"
proof (induction out arbitrary: vs)
  case Nil
  then show ?case by simp
next
  case (Cons c out)
  show ?case
  proof (cases "poll_set (push_bit 7 1) vs")
    case (Inl e')
    with Cons.prems poll_set_fault [OF Inl] show ?thesis by simp
  next
    case (Inr p)
    obtain seen r1 where p: "p = (seen, r1)" by (cases p)
    from Cons.prems Inr [unfolded p] Cons.IH [of r1] show ?thesis
      by (cases "send_polls out r1") auto
  qed
qed

lemma transmit_fault: "transmit out s = Inl e \<Longrightarrow> e = No_Response"
  by (auto simp: transmit_def split: sum.splits dest: send_polls_fault)

lemma poll_set_ready:
  "filter (\<lambda>v. v AND m \<noteq> 0) vs \<noteq> [] \<Longrightarrow>
   \<exists>seen r. poll_set m vs = Inr (seen, r)
     \<and> Suc (length (filter (\<lambda>v. v AND m \<noteq> 0) r)) = length (filter (\<lambda>v. v AND m \<noteq> 0) vs)"
  by (induction vs) auto

lemma send_polls_ready:
  "length out \<le> length (filter (\<lambda>v. v AND push_bit 7 1 \<noteq> 0) vs) \<Longrightarrow>
   \<exists>evs r. send_polls out vs = Inr (evs, r)
     \<and> length (filter (\<lambda>v. v AND push_bit 7 1 \<noteq> 0) r) + length out
         = length (filter (\<lambda>v. v AND push_bit 7 1 \<noteq> 0) vs)"
proof (induction out arbitrary: vs)
  case Nil
  show ?case by simp
next
  case (Cons c out)
  then have "filter (\<lambda>v. v AND push_bit 7 1 \<noteq> 0) vs \<noteq> []" by auto
  from poll_set_ready [OF this] obtain seen r where r: "poll_set (push_bit 7 1) vs = Inr (seen, r)"
    "Suc (length (filter (\<lambda>v. v AND push_bit 7 1 \<noteq> 0) r)) = length (filter (\<lambda>v. v AND push_bit 7 1 \<noteq> 0) vs)"
    by blast
  with Cons.prems have "length out \<le> length (filter (\<lambda>v. v AND push_bit 7 1 \<noteq> 0) r)" by simp
  from Cons.IH [OF this] obtain evs r' where
    "send_polls out r = Inr (evs, r')"
    "length (filter (\<lambda>v. v AND push_bit 7 1 \<noteq> 0) r') + length out
       = length (filter (\<lambda>v. v AND push_bit 7 1 \<noteq> 0) r)"
    by blast
  with r show ?case by auto
qed

lemma transmit_ready:
  "length out \<le> txe_count s \<Longrightarrow>
   \<exists>s'. transmit out s = Inr s' \<and> txe_count s' + length out = txe_count s"
  unfolding txe_count_def transmit_def
  using send_polls_ready [of out "USART2_ISR_in s"]
  by auto

lemma transmit_fields:
  assumes "transmit out s = Inr s'"
  shows "USART2_TDR_out s' = USART2_TDR_out s @ out \<and> GPIOA_ODR s' = GPIOA_ODR s
       \<and> ADC_DR_in s' = ADC_DR_in s \<and> GPIOA_IDR_in s' = GPIOA_IDR_in s
       \<and> ADC_ISR_in s' = ADC_ISR_in s \<and> ADC_CR_in s' = ADC_CR_in s
       \<and> (\<exists>evs. trace s' = trace s @ evs \<and> tdr_bytes evs = map of_char out)"
  using assms by (auto simp: transmit_def split: sum.splits dest: send_polls_tdr)

lemma send_json_transmit:
  assumes "sint moisture \<noteq> INT_MIN" "sint temp \<noteq> INT_MIN" "sint ph \<noteq> INT_MIN"
    "sint rain \<noteq> INT_MIN" "sint water_level \<noteq> INT_MIN"
  shows "send_json moisture temp ph rain water_level s =
         transmit (json_text (sint moisture) (sint temp) (sint ph) (sint rain) (sint water_level)) s"
proof -
  have j: \<open>json_text (sint moisture) (sint temp) (sint ph) (sint rain) (sint water_level) =
     ''{"moisture":'' @ decimal (sint moisture) @ '',"temp":'' @ decimal (sint temp) @
     '',"ph":'' @ decimal (sint ph) @ '',"rain":'' @ decimal (sint rain) @
     '',"water_level":'' @ decimal (sint water_level) @ [CHR ''}'', CHR 0x0D, CHR 0x0A]\<close>
    by (simp add: json_text_def)
  show ?thesis
    unfolding send_json_def j transmit_append uart_puts_transmit
      uart_putnum_transmit [OF assms(1)] uart_putnum_transmit [OF assms(2)]
      uart_putnum_transmit [OF assms(3)] uart_putnum_transmit [OF assms(4)]
      uart_putnum_transmit [OF assms(5)]
    by (simp add: bind_res_assoc)
qed

lemma read_in_Inr: "read_in vs = Inr (v, r) \<longleftrightarrow> vs = v # r"
  by (cases vs) auto

lemma read_adc_Inr:
  assumes "read_adc channel s = Inr (v, s1)"
  shows "ADC_DR_in s = v # ADC_DR_in s1 \<and> GPIOA_ODR s1 = GPIOA_ODR s
       \<and> GPIOA_IDR_in s1 = GPIOA_IDR_in s \<and> USART2_TDR_out s1 = USART2_TDR_out s
       \<and> USART2_ISR_in s1 = USART2_ISR_in s
       \<and> (\<exists>cr seen. trace s1 = trace s @
             [Wr R_ADC_CHSELR (push_bit (nat (sint channel)) 1), Rd R_ADC_CR cr, Wr R_ADC_CR (cr OR 4)] @
             map (Rd R_ADC_ISR) seen @ [Rd R_ADC_DR v])"
  using assms
  by (auto simp: read_adc_def bind_res_eq_Inr read_in_Inr split: if_splits prod.splits)

lemma moisture_of_Inr:
  assumes "moisture_of raw = Inr m"
  shows "sint m = (sint raw * 100) sdiv 4095 \<and> sint m \<noteq> INT_MIN"
proof -
  from assms obtain p where p: "c_int_of (sint raw * 100) = Inr p" "c_int_of (sint p sdiv 4095) = Inr m"
    by (auto simp: moisture_of_def bind_res_eq_Inr)
  from p(1) have sp: "sint p = sint raw * 100" by (simp add: c_int_of_Inr)
  from p(2) have sm: "sint m = sint p sdiv 4095" by (simp add: c_int_of_Inr)
  have "\<bar>sint p\<bar> \<le> 2 ^ 31" using sint_range [of p] unfolding INT_MIN_def INT_MAX_def by linarith
  then have "\<bar>sint p\<bar> div 4095 < 2 ^ 31" by simp
  moreover have "\<bar>sint p sdiv 4095\<bar> = \<bar>sint p\<bar> div 4095"
    by (simp add: signed_divide_int_def abs_mult sgn_if)
  ultimately have "sint m \<noteq> INT_MIN" unfolding sm INT_MIN_def by linarith
  then show ?thesis using sm sp by simp
qed

lemma rain_of_sint: "sint (rain_of idr) = (if bit idr 4 then 0 else 1)"
  by (simp add: rain_of_def bit_iff_and_push_bit_not_eq_0)

lemma main_iteration_Inr:
  assumes "main_iteration s = Inr s'"
  shows "\<exists>raw ph_raw idr m cr1 seen1 cr2 seen2 evs.
           ADC_DR_in s = raw # ph_raw # ADC_DR_in s' \<and> GPIOA_IDR_in s = idr # GPIOA_IDR_in s'
         \<and> moisture_of raw = Inr m
         \<and> USART2_TDR_out s' = USART2_TDR_out s @ json_text (sint m) 25 7 (sint (rain_of idr)) 75
         \<and> GPIOA_ODR s' = GPIOA_ODR (toggle_led s)
         \<and> trace s' = trace s @
              [Wr R_ADC_CHSELR 1, Rd R_ADC_CR cr1, Wr R_ADC_CR (cr1 OR 4)] @
              map (Rd R_ADC_ISR) seen1 @ [Rd R_ADC_DR raw] @
              [Wr R_ADC_CHSELR 2, Rd R_ADC_CR cr2, Wr R_ADC_CR (cr2 OR 4)] @
              map (Rd R_ADC_ISR) seen2 @ [Rd R_ADC_DR ph_raw] @
              [Rd R_GPIOA_IDR idr] @ evs @
              [Rd R_GPIOA_ODR (GPIOA_ODR s), Wr R_GPIOA_ODR (GPIOA_ODR s XOR 32)]
         \<and> tdr_bytes evs = map of_char (json_text (sint m) 25 7 (sint (rain_of idr)) 75)"
proof -
  from assms obtain raw s1 ph_raw s2 idr idr_rest m s4 where
    r1: "read_adc 0 s = Inr (raw, s1)" and r2: "read_adc 1 s1 = Inr (ph_raw, s2)"
    and idr: "read_in (GPIOA_IDR_in s2) = Inr (idr, idr_rest)"
    and m: "moisture_of raw = Inr m"
    and sj: "send_json m 25 7 (rain_of idr) 75
               (s2\<lparr>GPIOA_IDR_in := idr_rest, trace := trace s2 @ [Rd R_GPIOA_IDR idr]\<rparr>) = Inr s4"
    and s': "s' = toggle_led s4"
    by (auto simp: main_iteration_def bind_res_eq_Inr Let_def split: prod.splits)
  define s3 where "s3 = s2\<lparr>GPIOA_IDR_in := idr_rest, trace := trace s2 @ [Rd R_GPIOA_IDR idr]\<rparr>"
  have s3: "ADC_DR_in s3 = ADC_DR_in s2" "GPIOA_IDR_in s3 = idr_rest" "GPIOA_ODR s3 = GPIOA_ODR s2"
    "USART2_TDR_out s3 = USART2_TDR_out s2" "trace s3 = trace s2 @ [Rd R_GPIOA_IDR idr]"
    by (simp_all add: s3_def)
  have "sint (rain_of idr) \<noteq> INT_MIN" by (simp add: rain_of_sint INT_MIN_def)
  moreover have "sint m \<noteq> INT_MIN" using moisture_of_Inr [OF m] by simp
  ultimately have "send_json m 25 7 (rain_of idr) 75 s3 =
      transmit (json_text (sint m) 25 7 (sint (rain_of idr)) 75) s3"
    using send_json_transmit [of m 25 7 "rain_of idr" 75 s3] by (simp add: INT_MIN_def)
  with sj have "transmit (json_text (sint m) 25 7 (sint (rain_of idr)) 75) s3 = Inr s4"
    by (simp add: s3_def)
  from transmit_fields [OF this] obtain evs where
    s4: "ADC_DR_in s4 = ADC_DR_in s2" "GPIOA_IDR_in s4 = idr_rest" "GPIOA_ODR s4 = GPIOA_ODR s2"
      "USART2_TDR_out s4 = USART2_TDR_out s2 @ json_text (sint m) 25 7 (sint (rain_of idr)) 75"
      "trace s4 = trace s2 @ [Rd R_GPIOA_IDR idr] @ evs"
      "tdr_bytes evs = map of_char (json_text (sint m) 25 7 (sint (rain_of idr)) 75)"
    by (auto simp: s3)
  from read_adc_Inr [OF r1] obtain cr1 seen1 where
    t1: "trace s1 = trace s @ [Wr R_ADC_CHSELR 1, Rd R_ADC_CR cr1, Wr R_ADC_CR (cr1 OR 4)] @
           map (Rd R_ADC_ISR) seen1 @ [Rd R_ADC_DR raw]"
    by auto
  from read_adc_Inr [OF r2] obtain cr2 seen2 where
    t2: "trace s2 = trace s1 @ [Wr R_ADC_CHSELR 2, Rd R_ADC_CR cr2, Wr R_ADC_CR (cr2 OR 4)] @
           map (Rd R_ADC_ISR) seen2 @ [Rd R_ADC_DR ph_raw]"
    by auto
  have odr: "GPIOA_ODR s4 = GPIOA_ODR s"
    using read_adc_Inr [OF r1] read_adc_Inr [OF r2] s4(3) by simp
  have tr: "trace s' = trace s @
              [Wr R_ADC_CHSELR 1, Rd R_ADC_CR cr1, Wr R_ADC_CR (cr1 OR 4)] @
              map (Rd R_ADC_ISR) seen1 @ [Rd R_ADC_DR raw] @
              [Wr R_ADC_CHSELR 2, Rd R_ADC_CR cr2, Wr R_ADC_CR (cr2 OR 4)] @
              map (Rd R_ADC_ISR) seen2 @ [Rd R_ADC_DR ph_raw] @
              [Rd R_GPIOA_IDR idr] @ evs @
              [Rd R_GPIOA_ODR (GPIOA_ODR s), Wr R_GPIOA_ODR (GPIOA_ODR s XOR 32)]"
    by (simp add: s' toggle_led_def s4(5) t2 t1 odr)
  have "ADC_DR_in s = raw # ph_raw # ADC_DR_in s'" "GPIOA_IDR_in s = idr # GPIOA_IDR_in s'"
    "USART2_TDR_out s' = USART2_TDR_out s @ json_text (sint m) 25 7 (sint (rain_of idr)) 75"
    "GPIOA_ODR s' = GPIOA_ODR (toggle_led s)"
    using read_adc_Inr [OF r1] read_adc_Inr [OF r2] idr s4 odr
    by (simp_all add: s' toggle_led_def read_in_Inr)
  with m tr s4(6) show ?thesis by blast
qed

lemma init_adc_Inr:
  assumes "init_adc s = Inr s'"
  shows "USART2_TDR_out s' = USART2_TDR_out s \<and> GPIOA_ODR s' = GPIOA_ODR s
       \<and> USART2_ISR_in s' = USART2_ISR_in s
       \<and> (\<exists>cr1 cal cr2 rdy. trace s' = trace s @
             [Rd R_ADC_CR cr1, Wr R_ADC_CR (cr1 OR push_bit 31 1)] @ map (Rd R_ADC_CR) cal @
             [Rd R_ADC_CR cr2, Wr R_ADC_CR (cr2 OR 1)] @ map (Rd R_ADC_ISR) rdy
           \<and> rdy \<noteq> [] \<and> last rdy AND 1 \<noteq> 0)"
proof -
  from assms obtain cr1 cal cr2 rest3 rdy isr_rest where
    p: "poll_set (push_bit 0 1) (ADC_ISR_in s) = Inr (rdy, isr_rest)"
    and s': "s' = s\<lparr>ADC_CR := cr2 OR push_bit 0 1, ADC_CR_in := rest3, ADC_ISR_in := isr_rest,
               trace := trace s @
                 [Rd R_ADC_CR cr1, Wr R_ADC_CR (cr1 OR push_bit 31 1)] @
                 map (Rd R_ADC_CR) cal @
                 [Rd R_ADC_CR cr2, Wr R_ADC_CR (cr2 OR push_bit 0 1)] @
                 map (Rd R_ADC_ISR) rdy\<rparr>"
    by (auto simp: init_adc_def bind_res_eq_Inr split: prod.splits)
  from poll_set_Inr [OF p] have "rdy \<noteq> []" "last rdy AND 1 \<noteq> 0" by simp_all
  then show ?thesis unfolding s' by auto
qed

lemma main_startup_Inr:
  assumes "main_startup s = Inr s'"
  shows "\<exists>s0 init_evs rdy banner_evs.
           init_adc (init_usart (init_gpio (init_clocks s))) = Inr s0
         \<and> uart_puts banner (delay_ms 1000 s0) = Inr s'
         \<and> trace s0 = trace s @ init_evs @ [Rd R_ADC_ISR rdy] \<and> rdy AND 1 \<noteq> 0
         \<and> tdr_bytes init_evs = []
         \<and> trace s' = trace s0 @ banner_evs \<and> tdr_bytes banner_evs = map of_char banner
         \<and> USART2_TDR_out s0 = USART2_TDR_out s
         \<and> USART2_TDR_out s' = USART2_TDR_out s @ banner
         \<and> GPIOA_ODR s' = GPIOA_ODR s"
proof -
  define i where "i = init_usart (init_gpio (init_clocks s))"
  from assms obtain s0 where s0: "init_adc i = Inr s0"
    and p: "uart_puts banner (delay_ms 1000 s0) = Inr s'"
    by (auto simp: main_startup_def bind_res_eq_Inr i_def)
  obtain ie where ie: "trace i = trace s @ ie" "tdr_bytes ie = []"
    by (simp add: i_def init_usart_def init_gpio_def init_clocks_def Let_def)
  have fi: "USART2_TDR_out i = USART2_TDR_out s" "GPIOA_ODR i = GPIOA_ODR s"
    by (simp_all add: i_def init_usart_def init_gpio_def init_clocks_def Let_def)
  from init_adc_Inr [OF s0] obtain cr1 cal cr2 rdy where
    a: "USART2_TDR_out s0 = USART2_TDR_out i" "GPIOA_ODR s0 = GPIOA_ODR i"
      "trace s0 = trace i @
         [Rd R_ADC_CR cr1, Wr R_ADC_CR (cr1 OR push_bit 31 1)] @ map (Rd R_ADC_CR) cal @
         [Rd R_ADC_CR cr2, Wr R_ADC_CR (cr2 OR 1)] @ map (Rd R_ADC_ISR) rdy"
      "rdy \<noteq> []" "last rdy AND 1 \<noteq> 0"
    by blast
  define init_evs where "init_evs = ie @
         [Rd R_ADC_CR cr1, Wr R_ADC_CR (cr1 OR push_bit 31 1)] @ map (Rd R_ADC_CR) cal @
         [Rd R_ADC_CR cr2, Wr R_ADC_CR (cr2 OR 1)] @ map (Rd R_ADC_ISR) (butlast rdy)"
  have "map (Rd R_ADC_ISR) rdy = map (Rd R_ADC_ISR) (butlast rdy) @ [Rd R_ADC_ISR (last rdy)]"
    using a(4) by (metis append_butlast_last_id list.simps(8,9) map_append)
  then have t0: "trace s0 = trace s @ init_evs @ [Rd R_ADC_ISR (last rdy)]"
    by (simp add: a(3) ie(1) init_evs_def)
  have ni: "tdr_bytes init_evs = []"
    by (simp add: init_evs_def tdr_bytes_append tdr_bytes_reads ie(2))
  have "takeWhile (\<lambda>c. c \<noteq> CHR 0x00) banner = banner" by (simp add: banner_def)
  with p have "transmit banner s0 = Inr s'" by (simp add: uart_puts_transmit)
  from transmit_fields [OF this] obtain banner_evs where
    b: "USART2_TDR_out s' = USART2_TDR_out s0 @ banner" "GPIOA_ODR s' = GPIOA_ODR s0"
      "trace s' = trace s0 @ banner_evs" "tdr_bytes banner_evs = map of_char banner"
    by blast
  from s0 p t0 a(5) ni b a(1,2) fi show ?thesis
    unfolding i_def by auto
qed

lemma sint_INT_MIN: "sint (word_of_int INT_MIN :: c_int) = INT_MIN"
  by (simp add: INT_MIN_def)

lemma uart_putnum_no_overrun: "uart_putnum num s \<noteq> Inl Buffer_Overrun"
proof (cases "sint num = INT_MIN")
  case True
  show ?thesis
    unfolding uart_putnum_INT_MIN [OF True] uart_putchar_transmit
    by (cases "transmit [CHR ''-''] s") (auto dest: transmit_fault)
next
  case False
  show ?thesis
    unfolding uart_putnum_transmit [OF False]
    by (cases "transmit (decimal (sint num)) s") (auto dest: transmit_fault)
qed

lemma occurrence_at_0:
  assumes p: "p < length pat" "pat ! p = c" "c \<notin> set (drop (Suc p) pat)"
    and out: "c \<notin> set out"
    and occ: "take (length pat) (drop j (pat @ out)) = pat"
  shows "j = 0"
proof (rule ccontr)
  assume "j \<noteq> 0"
  then have j: "0 < j" by simp
  have len: "j + length pat \<le> length (pat @ out)"
  proof -
    have "length (take (length pat) (drop j (pat @ out))) = length pat" by (simp only: occ)
    then show ?thesis using p(1) by simp
  qed
  have "take (length pat) (drop j (pat @ out)) ! p = drop j (pat @ out) ! p"
    using p(1) by (rule nth_take)
  also have "\<dots> = (pat @ out) ! (j + p)"
    using len by (intro nth_drop) simp
  finally have at: "(pat @ out) ! (j + p) = c" by (simp only: occ p(2))
  show False
  proof (cases "j + p < length pat")
    case True
    have "pat ! (j + p) = drop (Suc p) pat ! (j - 1)"
      using True j by (simp add: add.commute)
    moreover have "j - 1 < length (drop (Suc p) pat)" using True j by simp
    ultimately have "pat ! (j + p) \<in> set (drop (Suc p) pat)"
      by (metis nth_mem)
    with at True p(3) show False by (simp add: nth_append)
  next
    case False
    then have "(pat @ out) ! (j + p) = out ! (j + p - length pat)" by (simp add: nth_append)
    moreover have "j + p - length pat < length out" using len p(1) False by simp
    ultimately have "(pat @ out) ! (j + p) \<in> set out" by (metis nth_mem)
    with at out show False by simp
  qed
qed

lemma occurrences_once:
  assumes "p < length pat" "pat ! p = c" "c \<notin> set (drop (Suc p) pat)" "c \<notin> set out"
  shows "occurrences pat (pat @ out) = [0]"
proof -
  let ?P = "\<lambda>j. take (length pat) (drop j (pat @ out)) = pat"
  have "[0..<Suc (length (pat @ out))] = 0 # [Suc 0..<Suc (length (pat @ out))]"
    by (rule upt_conv_Cons) simp
  moreover have "?P 0" by simp
  moreover have "filter ?P [Suc 0..<Suc (length (pat @ out))] = []"
  proof (rule filter_False, rule ballI)
    fix j assume "j \<in> set [Suc 0..<Suc (length (pat @ out))]"
    then have "j \<noteq> 0" by auto
    then show "\<not> ?P j" using occurrence_at_0 [OF assms, of j] by blast
  qed
  ultimately show ?thesis by (simp add: occurrences_def)
qed

lemma digits_chars: "c \<in> set (digits n) \<Longrightarrow> (of_char c :: nat) < 58"
proof (induction n rule: digits.induct)
  case (1 n)
  show ?case
  proof (cases "n = 0")
    case True
    with "1.prems" show ?thesis by (simp add: digits.simps)
  next
    case False
    then have "digits n = digits (n div 10) @ [char_of (48 + n mod 10)]"
      by (subst digits.simps) simp
    with "1.prems" "1.IH" [OF False] show ?thesis by auto
  qed
qed

lemma decimal_chars: "c \<in> set (decimal k) \<Longrightarrow> (of_char c :: nat) < 58"
  by (auto simp: decimal_def dest: digits_chars split: if_splits)

lemma json_text_no_S: "CHR ''S'' \<notin> set (json_text m t p r w)"
proof -
  have "CHR ''S'' \<notin> set (decimal k)" for k
    using decimal_chars [of "CHR ''S''" k] by auto
  then show ?thesis by (simp add: json_text_def)
qed

lemma main_loop_Inr:
  assumes "main_loop k s = Inr s'"
  shows "\<exists>recs evs. USART2_TDR_out s' = USART2_TDR_out s @ concat recs \<and> length recs = k
           \<and> (\<forall>r \<in> set recs. \<exists>m rn. r = json_text m 25 7 rn 75)
           \<and> trace s' = trace s @ evs \<and> tdr_bytes evs = map of_char (concat recs)"
  using assms
proof (induction k arbitrary: s)
  case 0
  then show ?case by simp
next
  case (Suc k)
  then obtain s1 where s1: "main_iteration s = Inr s1" and l: "main_loop k s1 = Inr s'"
    by (auto simp: bind_res_eq_Inr)
  from main_iteration_Inr [OF s1] obtain m rn e1 where
    r: "USART2_TDR_out s1 = USART2_TDR_out s @ json_text m 25 7 rn 75"
      "trace s1 = trace s @ e1" "tdr_bytes e1 = map of_char (json_text m 25 7 rn 75)"
    by (fastforce simp: tdr_bytes_append tdr_bytes_reads)
  from Suc.IH [OF l] obtain recs evs where
    recs: "USART2_TDR_out s' = USART2_TDR_out s1 @ concat recs" "length recs = k"
      "\<forall>r \<in> set recs. \<exists>m rn. r = json_text m 25 7 rn 75"
      "trace s' = trace s1 @ evs" "tdr_bytes evs = map of_char (concat recs)" by blast
  let ?recs = "json_text m 25 7 rn 75 # recs"
  have "USART2_TDR_out s' = USART2_TDR_out s @ concat ?recs" using r recs(1) by simp
  moreover have "length ?recs = Suc k" using recs(2) by simp
  moreover have "\<forall>r \<in> set ?recs. \<exists>m rn. r = json_text m 25 7 rn 75" using recs(3) by auto
  moreover have "trace s' = trace s @ e1 @ evs" using r(2) recs(4) by simp
  moreover have "tdr_bytes (e1 @ evs) = map of_char (concat ?recs)"
    using r(3) recs(5) by (simp add: tdr_bytes_append)
  ultimately show ?case by blast
qed

lemma digits_range: "c \<in> set (digits n) \<Longrightarrow> 48 \<le> (of_char c :: nat) \<and> (of_char c :: nat) < 58"
proof (induction n rule: digits.induct)
  case (1 n)
  show ?case
  proof (cases "n = 0")
    case True
    with "1.prems" show ?thesis by (simp add: digits.simps)
  next
    case False
    then have "digits n = digits (n div 10) @ [char_of (48 + n mod 10)]"
      by (subst digits.simps) simp
    with "1.prems" "1.IH" [OF False] show ?thesis by auto
  qed
qed

lemma parse_digits_append:
  "parse_digits acc (xs @ ys) =
     (case parse_digits acc xs of None \<Rightarrow> None | Some a \<Rightarrow> parse_digits a ys)"
  by (induction xs arbitrary: acc) (simp_all split: option.splits)

lemma digit_val_digit: "d < 10 \<Longrightarrow> digit_val (char_of (48 + d)) = Some d"
  by (simp add: digit_val_def)

lemma parse_digits_digits: "parse_digits 0 (digits n) = Some n"
proof (induction n rule: digits.induct)
  case (1 n)
  show ?case
  proof (cases "n = 0")
    case True
    then show ?thesis by (simp add: digits.simps)
  next
    case False
    then have ds: "digits n = digits (n div 10) @ [char_of (48 + n mod 10)]"
      by (subst digits.simps) simp
    have "digit_val (char_of (48 + n mod 10)) = Some (n mod 10)"
      by (rule digit_val_digit) simp
    then show ?thesis
      unfolding ds parse_digits_append "1.IH" [OF False] by simp
  qed
qed

lemma digits_nonempty: "n \<noteq> 0 \<Longrightarrow> digits n \<noteq> []"
  by (subst digits.simps) simp

lemma parse_decimal_decimal: "parse_decimal (decimal k) = Some k"
proof -
  consider "k = 0" | "0 < k" | "k < 0" by linarith
  then show ?thesis
  proof cases
    case 1
    then show ?thesis by (simp add: decimal_def parse_decimal_def digit_val_def)
  next
    case 2
    then obtain c cs where cs: "digits (nat k) = c # cs"
      using digits_nonempty [of "nat k"] by (cases "digits (nat k)") auto
    then have "c \<in> set (digits (nat k))" by simp
    then have "c \<noteq> CHR ''-''" using digits_range by fastforce
    then have "parse_decimal (digits (nat k)) = map_option int (parse_digits 0 (digits (nat k)))"
      by (simp add: parse_decimal_def cs)
    with 2 show ?thesis by (simp add: decimal_def parse_digits_digits)
  next
    case 3
    then have "digits (nat (- k)) \<noteq> []" using digits_nonempty [of "nat (- k)"] by simp
    with 3 show ?thesis by (simp add: decimal_def parse_decimal_def parse_digits_digits)
  qed
qed

lemma length_decimal: "length (decimal (sint (w :: c_int))) \<le> 11"
proof -
  have "nat (sint w) < 10 ^ 10" using sint_lt [of w] by simp
  then have a: "length (digits (nat (sint w))) \<le> 10" by (rule length_digits)
  have "nat (- sint w) < 10 ^ 10" using sint_ge [of w] by simp
  then have b: "length (digits (nat (- sint w))) \<le> 10" by (rule length_digits)
  from a b show ?thesis by (simp add: decimal_def)
qed

lemma uart_putnum_roundtrip:
  assumes "sint num \<noteq> INT_MIN" and "11 \<le> txe_count s"
  shows "roundtrip num s"
proof -
  have "length (decimal (sint num)) \<le> txe_count s"
    using length_decimal [of num] assms(2) by simp
  then obtain s' where s': "transmit (decimal (sint num)) s = Inr s'"
    using transmit_ready by blast
  from transmit_fields [OF s'] have "USART2_TDR_out s' = USART2_TDR_out s @ decimal (sint num)"
    by simp
  then show ?thesis
    by (simp add: roundtrip_def uart_putnum_transmit [OF assms(1)] s' parse_decimal_decimal)
qed

lemma send_json_sends:
  assumes "sint moisture \<noteq> INT_MIN" "sint temp \<noteq> INT_MIN" "sint ph \<noteq> INT_MIN"
    "sint rain \<noteq> INT_MIN" "sint water_level \<noteq> INT_MIN"
    and "length (json_text (sint moisture) (sint temp) (sint ph) (sint rain) (sint water_level)) \<le> txe_count s"
  shows "\<exists>s'. send_json moisture temp ph rain water_level s = Inr s'
           \<and> USART2_TDR_out s' = USART2_TDR_out s @
               json_text (sint moisture) (sint temp) (sint ph) (sint rain) (sint water_level)"
proof -
  from assms(6) obtain s' where
    s': "transmit (json_text (sint moisture) (sint temp) (sint ph) (sint rain) (sint water_level)) s = Inr s'"
    using transmit_ready by blast
  from transmit_fields [OF s'] s' show ?thesis
    by (simp add: send_json_transmit [OF assms(1-5)])
qed

lemma send_json_example:
  "60 \<le> txe_count s \<Longrightarrow>
   \<exists>s'. send_json 50 25 7 0 75 s = Inr s' \<and> USART2_TDR_out s' = USART2_TDR_out s @ json_text 50 25 7 0 75"
proof -
  assume r: "60 \<le> txe_count s"
  have "length (json_text 50 25 7 0 75) = 60" by code_simp
  with r have "length (json_text (sint (50::c_int)) (sint (25::c_int)) (sint (7::c_int)) (sint (0::c_int)) (sint (75::c_int))) \<le> txe_count s"
    by simp
  from send_json_sends [OF _ _ _ _ _ this] show ?thesis by (simp add: INT_MIN_def)
qed

lemma txe_count_all:
  "list_all (\<lambda>v. v AND push_bit 7 1 \<noteq> 0) (USART2_ISR_in s) \<Longrightarrow> txe_count s = length (USART2_ISR_in s)"
  by (simp add: txe_count_def list_all_iff)

lemma transmit_responsive:
  assumes all: "list_all (\<lambda>v. v AND push_bit 7 1 \<noteq> 0) (USART2_ISR_in s)"
    and len: "length out \<le> length (USART2_ISR_in s)"
  shows "\<exists>s'. transmit out s = Inr s'
           \<and> list_all (\<lambda>v. v AND push_bit 7 1 \<noteq> 0) (USART2_ISR_in s')
           \<and> length (USART2_ISR_in s') + length out = length (USART2_ISR_in s)"
proof -
  from len have "length out \<le> txe_count s" by (simp add: txe_count_all [OF all])
  then obtain s' where s': "transmit out s = Inr s'" "txe_count s' + length out = txe_count s"
    using transmit_ready by blast
  from s'(1) obtain evs r where r: "send_polls out (USART2_ISR_in s) = Inr (evs, r)"
    and isr: "USART2_ISR_in s' = r"
    by (auto simp: transmit_def split: sum.splits)
  from send_polls_subset [OF r] all have all': "list_all (\<lambda>v. v AND push_bit 7 1 \<noteq> 0) (USART2_ISR_in s')"
    unfolding isr list_all_iff by blast
  from s'(2) have "length (USART2_ISR_in s') + length out = length (USART2_ISR_in s)"
    by (simp only: txe_count_all [OF all] txe_count_all [OF all'])
  with s'(1) all' show ?thesis by blast
qed

lemma length_json_text:
  "length (json_text (sint (a :: c_int)) (sint (b :: c_int)) (sint (c :: c_int)) (sint (d :: c_int)) (sint (e :: c_int))) \<le> 128"
  using length_decimal [of a] length_decimal [of b] length_decimal [of c]
    length_decimal [of d] length_decimal [of e]
  by (simp add: json_text_def)

lemma two_elems: "2 \<le> length xs \<Longrightarrow> \<exists>a b r. xs = a # b # r"
  by (cases xs; cases "tl xs") auto

lemma read_adc_responsive:
  assumes "0 \<le> sint ch" "sint ch < 32" "ADC_CR_in s = c1 # crs" "ADC_ISR_in s = i1 # irs"
    "i1 AND push_bit 2 1 \<noteq> 0" "ADC_DR_in s = d # drs"
  shows "\<exists>s1. read_adc ch s = Inr (d, s1) \<and> ADC_CR_in s1 = crs \<and> ADC_ISR_in s1 = irs
           \<and> ADC_DR_in s1 = drs \<and> GPIOA_IDR_in s1 = GPIOA_IDR_in s
           \<and> USART2_ISR_in s1 = USART2_ISR_in s"
  using assms by (simp add: read_adc_def)

lemma main_iteration_responsive:
  assumes "responsive (Suc k) s"
  shows "\<exists>s'. main_iteration s = Inr s' \<and> responsive k s'"
proof -
  from assms obtain c1 c2 crs where cr: "ADC_CR_in s = c1 # c2 # crs"
    using two_elems [of "ADC_CR_in s"] by (auto simp: responsive_def)
  from assms obtain i1 i2 irs where isr: "ADC_ISR_in s = i1 # i2 # irs"
    using two_elems [of "ADC_ISR_in s"] by (auto simp: responsive_def)
  from assms obtain raw ph_raw drs where dr: "ADC_DR_in s = raw # ph_raw # drs"
    using two_elems [of "ADC_DR_in s"] by (auto simp: responsive_def)
  from assms obtain idr idrs where idr: "GPIOA_IDR_in s = idr # idrs"
    by (cases "GPIOA_IDR_in s") (auto simp: responsive_def)
  from assms isr have eoc: "i1 AND push_bit 2 1 \<noteq> 0" "i2 AND push_bit 2 1 \<noteq> 0"
    by (auto simp: responsive_def)
  from assms dr have raw: "0 \<le> sint raw" "sint raw \<le> 4095"
    by (auto simp: responsive_def)
  have ch: "0 \<le> sint (0 :: c_int)" "sint (0 :: c_int) < 32" "0 \<le> sint (1 :: c_int)" "sint (1 :: c_int) < 32"
    by simp_all
  from read_adc_responsive [OF ch(1,2) cr isr eoc(1) dr] obtain a where
    r1: "read_adc 0 s = Inr (raw, a)" and af: "ADC_CR_in a = c2 # crs" "ADC_ISR_in a = i2 # irs"
      "ADC_DR_in a = ph_raw # drs" "GPIOA_IDR_in a = GPIOA_IDR_in s" "USART2_ISR_in a = USART2_ISR_in s"
    by blast
  from read_adc_responsive [OF ch(3,4) af(1,2) eoc(2) af(3)] obtain b where
    r2: "read_adc 1 a = Inr (ph_raw, b)" and bf: "ADC_CR_in b = crs" "ADC_ISR_in b = irs"
      "ADC_DR_in b = drs" "GPIOA_IDR_in b = GPIOA_IDR_in a" "USART2_ISR_in b = USART2_ISR_in a"
    by blast
  define c where "c = b\<lparr>GPIOA_IDR_in := idrs, trace := trace b @ [Rd R_GPIOA_IDR idr]\<rparr>"
  have bi: "GPIOA_IDR_in b = idr # idrs" by (simp add: af bf idr)
  have cf: "USART2_ISR_in c = USART2_ISR_in s" "ADC_DR_in c = drs" "GPIOA_IDR_in c = idrs"
    "ADC_ISR_in c = irs" "ADC_CR_in c = crs"
    by (simp_all add: af bf c_def)
  from moisture_of_eq [OF raw] obtain m where m: "moisture_of raw = Inr m" by blast
  have ne: "sint m \<noteq> INT_MIN" using moisture_of_Inr [OF m] by simp
  have nr: "sint (rain_of idr) \<noteq> INT_MIN" by (simp add: rain_of_sint INT_MIN_def)
  have all3: "list_all (\<lambda>v. v AND push_bit 7 1 \<noteq> 0) (USART2_ISR_in c)"
    using assms by (simp add: responsive_def cf)
  have "length (json_text (sint m) (sint (25 :: c_int)) (sint (7 :: c_int)) (sint (rain_of idr)) (sint (75 :: c_int)))
          \<le> length (USART2_ISR_in c)"
    using length_json_text [of m 25 7 "rain_of idr" 75] assms by (simp add: responsive_def cf)
  from transmit_responsive [OF all3 this] obtain s4 where
    s4: "transmit (json_text (sint m) (sint (25 :: c_int)) (sint (7 :: c_int)) (sint (rain_of idr)) (sint (75 :: c_int))) c = Inr s4"
      "list_all (\<lambda>v. v AND push_bit 7 1 \<noteq> 0) (USART2_ISR_in s4)"
      "length (USART2_ISR_in s4)
         + length (json_text (sint m) (sint (25 :: c_int)) (sint (7 :: c_int)) (sint (rain_of idr)) (sint (75 :: c_int)))
       = length (USART2_ISR_in c)"
    by blast
  have sj: "send_json m 25 7 (rain_of idr) 75 c = Inr s4"
    using send_json_transmit [of m 25 7 "rain_of idr" 75 c] ne nr s4(1)
    by (simp add: INT_MIN_def)
  have it: "main_iteration s = Inr (toggle_led s4)"
    by (simp add: main_iteration_def r1 r2 bi m c_def [symmetric] sj)
  have f: "ADC_DR_in s4 = drs" "GPIOA_IDR_in s4 = idrs" "ADC_ISR_in s4 = irs" "ADC_CR_in s4 = crs"
    using transmit_fields [OF s4(1)] by (simp_all add: cf)
  have "128 * k \<le> length (USART2_ISR_in s4)"
    using s4(3) length_json_text [of m 25 7 "rain_of idr" 75] assms
    by (simp add: responsive_def cf)
  then have "responsive k (toggle_led s4)"
    using assms s4(2) by (simp add: responsive_def toggle_led_def f cr isr dr idr)
  with it show ?thesis by blast
qed

lemma main_loop_responsive:
  "responsive k s \<Longrightarrow> \<exists>s'. main_loop k s = Inr s'"
proof (induction k arbitrary: s)
  case 0
  show ?case by simp
next
  case (Suc k)
  from main_iteration_responsive [OF Suc.prems] obtain s1 where
    "main_iteration s = Inr s1" "responsive k s1" by blast
  with Suc.IH [of s1] show ?case by auto
qed

lemma three_elems: "3 \<le> length xs \<Longrightarrow> \<exists>a b c r. xs = a # b # c # r"
  by (cases xs; cases "tl xs"; cases "tl (tl xs)") auto

lemma init_adc_responsive:
  assumes "ADC_CR_in s = c1 # c2 # c3 # crs" "c2 AND push_bit 31 1 = 0"
    "ADC_ISR_in s = i1 # irs" "i1 AND push_bit 0 1 \<noteq> 0"
  shows "\<exists>t. init_adc s = Inr t \<and> ADC_CR_in t = crs \<and> ADC_ISR_in t = irs
           \<and> ADC_DR_in t = ADC_DR_in s \<and> GPIOA_IDR_in t = GPIOA_IDR_in s
           \<and> USART2_ISR_in t = USART2_ISR_in s"
  using assms by (simp add: init_adc_def)

lemma main_startup_responsive:
  assumes "responsive (Suc k) s"
  shows "\<exists>s'. main_startup s = Inr s' \<and> responsive k s'"
proof -
  define i where "i = init_usart (init_gpio (init_clocks s))"
  have tapes: "ADC_CR_in i = ADC_CR_in s" "ADC_ISR_in i = ADC_ISR_in s" "ADC_DR_in i = ADC_DR_in s"
    "GPIOA_IDR_in i = GPIOA_IDR_in s" "USART2_ISR_in i = USART2_ISR_in s"
    by (simp_all add: i_def init_usart_def init_gpio_def init_clocks_def Let_def)
  from assms obtain c1 c2 c3 crs where cr: "ADC_CR_in s = c1 # c2 # c3 # crs"
    using three_elems [of "ADC_CR_in s"] by (auto simp: responsive_def)
  from assms obtain i1 irs where isr: "ADC_ISR_in s = i1 # irs"
    by (cases "ADC_ISR_in s") (auto simp: responsive_def)
  from assms cr have cal: "c2 AND push_bit 31 1 = 0" by (auto simp: responsive_def)
  from assms isr have rdy: "i1 AND push_bit 0 1 \<noteq> 0" by (auto simp: responsive_def)
  from init_adc_responsive [OF cr [folded tapes(1)] cal isr [folded tapes(2)] rdy] obtain t where
    ia: "init_adc i = Inr t"
    and tf: "ADC_CR_in t = crs" "ADC_ISR_in t = irs" "ADC_DR_in t = ADC_DR_in i"
      "GPIOA_IDR_in t = GPIOA_IDR_in i" "USART2_ISR_in t = USART2_ISR_in i"
    by blast
  have all0: "list_all (\<lambda>v. v AND push_bit 7 1 \<noteq> 0) (USART2_ISR_in t)"
    using assms by (simp add: responsive_def tf tapes)
  have lb: "length banner = 31" by (simp add: banner_def)
  have "length banner \<le> length (USART2_ISR_in t)"
    using assms by (simp add: responsive_def tf tapes lb)
  from transmit_responsive [OF all0 this] obtain s1 where
    s1: "transmit banner t = Inr s1" "list_all (\<lambda>v. v AND push_bit 7 1 \<noteq> 0) (USART2_ISR_in s1)"
      "length (USART2_ISR_in s1) + length banner = length (USART2_ISR_in t)"
    by blast
  have tw: "takeWhile (\<lambda>c. c \<noteq> CHR 0x00) banner = banner" by (simp add: banner_def)
  have "uart_puts banner t = Inr s1"
    by (simp only: uart_puts_transmit tw s1(1))
  then have st: "main_startup s = Inr s1"
    using ia by (simp add: main_startup_def i_def)
  have f: "ADC_DR_in s1 = ADC_DR_in s" "GPIOA_IDR_in s1 = GPIOA_IDR_in s" "ADC_ISR_in s1 = irs" "ADC_CR_in s1 = crs"
    using transmit_fields [OF s1(1)] by (simp_all add: tf tapes)
  have "128 * k \<le> length (USART2_ISR_in s1)"
    using s1(3) assms by (simp add: responsive_def tf tapes lb)
  then have "responsive k s1"
    using assms s1(2) by (simp add: responsive_def f cr isr)
  with st show ?thesis by blast
qed

lemma main_responsive:
  "responsive (Suc k) s \<Longrightarrow> \<exists>s'. main k s = Inr s'"
proof -
  assume "responsive (Suc k) s"
  from main_startup_responsive [OF this] obtain s1 where
    "main_startup s = Inr s1" "responsive k s1" by blast
  with main_loop_responsive [of k s1] show ?thesis by (auto simp: main_def)
qed

lemma responsive_bench: "responsive k (bench (replicate (2 * k) 2048) (replicate k 0) (128 * k))"
  by (simp add: responsive_def bench_def list_all_iff)

declare delay_ms_id [code]

section \<open>The claims\<close>

text \<open>
  C1. The claim: for every \<^verbatim>\<open>int\<close>, the text sent by \<^verbatim>\<open>uart_putnum\<close> parses
  back to the number, the least \<^verbatim>\<open>int\<close> included. At the least \<^verbatim>\<open>int\<close> the
  source negates the number, which overflows, so no text that parses back to
  it is sent, whatever the state of the hardware. For every other \<^verbatim>\<open>int\<close> the
  round trip holds once the transmitter is ready often enough
  (\<open>uart_putnum_roundtrip\<close>).
\<close>

theorem roundtrip_fails_at_INT_MIN: "\<not> roundtrip (word_of_int INT_MIN) s"
proof -
  have "isl (uart_putnum (word_of_int INT_MIN) s)"
    unfolding uart_putnum_INT_MIN [OF sint_INT_MIN]
    by (cases "uart_putchar (CHR ''-'') s") simp_all
  then show ?thesis
    by (cases "uart_putnum (word_of_int INT_MIN) s") (simp_all add: roundtrip_def)
qed

text \<open>
  C2. The claim: \<^verbatim>\<open>uart_putnum\<close> never writes outside its buffer and the
  negation of the least \<^verbatim>\<open>int\<close> is well defined. The buffer is never overrun
  (\<open>uart_putnum_no_overrun\<close>), but for the least \<^verbatim>\<open>int\<close> the negation in line
  67 leaves the range of \<^verbatim>\<open>int\<close>: after the minus sign is sent the run ends in
  a signed overflow.
\<close>

theorem putnum_INT_MIN_overflows:
  "c_int_of (- sint (word_of_int INT_MIN :: c_int)) = Inl Signed_Overflow
   \<and> uart_putnum (word_of_int INT_MIN) s = bind_res (uart_putchar (CHR ''-'') s) (\<lambda>s1. Inl Signed_Overflow)
   \<and> uart_putnum (word_of_int INT_MIN) (bench [] [] 20) = Inl Signed_Overflow"
proof -
  have "c_int_of (- sint (word_of_int INT_MIN :: c_int)) = Inl Signed_Overflow"
    by (simp add: sint_INT_MIN) (simp add: c_int_of_def INT_MIN_def INT_MAX_def)
  moreover have "uart_putnum (word_of_int INT_MIN) (bench [] [] 20) = Inl Signed_Overflow"
    by code_simp
  ultimately show ?thesis using uart_putnum_INT_MIN [OF sint_INT_MIN] by simp
qed

text \<open>
  C3. For raw readings between 0 and 4095 the moisture percentage is defined,
  lies between 0 and 100 and is monotone; 0 gives 0, 4095 gives 100 and 2048
  gives 50.
\<close>

theorem moisture_percent:
  assumes "0 \<le> sint a" and "sint a \<le> sint b" and "sint b \<le> 4095"
  shows "\<exists>ma mb. moisture_of a = Inr ma \<and> moisture_of b = Inr mb
           \<and> 0 \<le> sint ma \<and> sint ma \<le> sint mb \<and> sint mb \<le> 100
           \<and> moisture_of 0 = Inr 0 \<and> moisture_of 4095 = Inr 100 \<and> moisture_of 2048 = Inr 50"
proof -
  from assms obtain ma where ma: "moisture_of a = Inr ma" "sint ma = sint a * 100 div 4095"
    using moisture_of_eq [of a] by auto
  from assms obtain mb where mb: "moisture_of b = Inr mb" "sint mb = sint b * 100 div 4095"
    using moisture_of_eq [of b] by auto
  have "0 \<le> sint a * 100 div 4095" using assms by (simp add: pos_imp_zdiv_nonneg_iff)
  moreover have "sint a * 100 div 4095 \<le> sint b * 100 div 4095"
    using assms by (intro zdiv_mono1) simp_all
  moreover have "sint b * 100 div 4095 \<le> 100" using assms by simp
  moreover have "moisture_of 0 = Inr 0 \<and> moisture_of 4095 = Inr 100 \<and> moisture_of 2048 = Inr 50"
    by code_simp
  ultimately show ?thesis using ma mb by auto
qed

theorem moisture_percent_witness:
  "0 \<le> sint (2047 :: c_int) \<and> sint (2047 :: c_int) \<le> sint (2048 :: c_int) \<and> sint (2048 :: c_int) \<le> 4095
   \<and> moisture_of 2047 = Inr 49 \<and> moisture_of 2048 = Inr 50"
proof -
  have e: "moisture_of 2047 = Inr 49" "moisture_of 2048 = Inr 50" by code_simp+
  have "0 \<le> sint (2047 :: c_int)" "sint (2047 :: c_int) \<le> sint (2048 :: c_int)" "sint (2048 :: c_int) \<le> 4095"
    by simp_all
  from moisture_percent [OF this] e show ?thesis by simp
qed

text \<open>
  C3, as the specification has it: 2048 gives 49. It gives 50, since
  \<open>204800 = 50 * 4095 + 50\<close>.
\<close>

theorem moisture_2048_is_50: "moisture_of 2048 = Inr 50 \<and> moisture_of 2048 \<noteq> Inr 49"
  by code_simp

text \<open>
  C4. The claim: for every five \<^verbatim>\<open>int\<close> fields \<^verbatim>\<open>send_json\<close> sends the record
  with each field in decimal. With the least \<^verbatim>\<open>int\<close> as the moisture field the
  run never completes the record, and on the bench it ends in a signed
  overflow. For all other fields the record is sent as claimed
  (\<open>send_json_sends\<close>, \<open>send_json_example\<close>).
\<close>

theorem send_json_INT_MIN:
  "isl (send_json (word_of_int INT_MIN) temp ph rain water_level s)
   \<and> send_json (word_of_int INT_MIN) 25 7 0 75 (bench [] [] 100) = Inl Signed_Overflow"
proof -
  have isl_bind: "isl (bind_res m f)" if "isl m" for m :: "fault + hw" and f :: "hw \<Rightarrow> fault + hw"
    using that by (cases m) simp_all
  have "isl (uart_putnum (word_of_int INT_MIN) s1)" for s1
    unfolding uart_putnum_INT_MIN [OF sint_INT_MIN]
    by (cases "uart_putchar (CHR ''-'') s1") simp_all
  then have "isl (bind_res m (\<lambda>s1. bind_res (uart_putnum (word_of_int INT_MIN) s1) f))"
    for m and f :: "hw \<Rightarrow> fault + hw"
    by (cases m) (simp_all add: isl_bind)
  then have "isl (send_json (word_of_int INT_MIN) temp ph rain water_level s)"
    unfolding send_json_def .
  moreover have "send_json (word_of_int INT_MIN) 25 7 0 75 (bench [] [] 100) = Inl Signed_Overflow"
    by code_simp
  ultimately show ?thesis by simp
qed

text \<open>
  C5. The rain value computed in the loop is the negation of the level of
  the rain-sensor pin, bit 4 of the input data register: 1 when the pin is
  low and 0 when it is high, for every value of the register.
\<close>

theorem rain_active_low: "rain_of idr = (if bit idr 4 then 0 else 1)"
  by (simp add: rain_of_def bit_iff_and_push_bit_not_eq_0)

text \<open>
  C6. After \<open>k\<close> completed passes of the loop, bit 5 of the output data
  register, the status indicator, is what it was before the loop when \<open>k\<close>
  is even and its complement when \<open>k\<close> is odd.
\<close>

theorem led_parity:
  assumes "main_loop k s = Inr s'"
  shows "bit (GPIOA_ODR s') 5 = (if even k then bit (GPIOA_ODR s) 5 else \<not> bit (GPIOA_ODR s) 5)"
  using assms
proof (induction k arbitrary: s)
  case 0
  then show ?case by simp
next
  case (Suc k)
  then obtain s1 where s1: "main_iteration s = Inr s1" and l: "main_loop k s1 = Inr s'"
    by (auto simp: bind_res_eq_Inr)
  from main_iteration_Inr [OF s1] have "GPIOA_ODR s1 = GPIOA_ODR (toggle_led s)" by blast
  then have "bit (GPIOA_ODR s1) 5 = (\<not> bit (GPIOA_ODR s) 5)"
    by (simp only: toggle_bits) simp
  with Suc.IH [OF l] show ?case by simp
qed

theorem led_parity_witness:
  "map_sum id (\<lambda>s. bit (GPIOA_ODR s) 5) (main_loop 3 (bench [2048, 7, 4095, 9, 0, 0] [0x10, 0, 0] 300)) = Inr True"
proof -
  let ?B = "bench [2048, 7, 4095, 9, 0, 0] [0x10, 0, 0] 300"
  have "\<not> isl (main_loop 3 ?B)" by code_simp
  then obtain s' where s': "main_loop 3 ?B = Inr s'" by (cases "main_loop 3 ?B") auto
  have "\<not> bit (GPIOA_ODR ?B) 5" by (simp add: bench_def)
  with led_parity [OF s'] show ?thesis by (simp add: s')
qed

text \<open>
  C7. In every pass of the loop that completes, the record sent has the
  temperature 25, the pH 7 and the water level 75, whatever the inputs.
  Moisture and rain are the two fields computed from a sensor input: the
  pass selects channel 0, converts and reads the data register, and this
  value gives the moisture; it then selects channel 1, converts and reads the
  data register, and this value appears in no field; it reads the input data
  register, whose bit 4 gives the rain field; then it sends the record and
  toggles the indicator.
\<close>

theorem record_fields:
  assumes "main_iteration s = Inr s'"
  shows "\<exists>raw ph_raw idr m cr1 seen1 cr2 seen2 evs.
           ADC_DR_in s = raw # ph_raw # ADC_DR_in s' \<and> GPIOA_IDR_in s = idr # GPIOA_IDR_in s'
         \<and> trace s' = trace s @
              [Wr R_ADC_CHSELR (push_bit 0 1), Rd R_ADC_CR cr1, Wr R_ADC_CR (cr1 OR push_bit 2 1)] @
              map (Rd R_ADC_ISR) seen1 @ [Rd R_ADC_DR raw] @
              [Wr R_ADC_CHSELR (push_bit 1 1), Rd R_ADC_CR cr2, Wr R_ADC_CR (cr2 OR push_bit 2 1)] @
              map (Rd R_ADC_ISR) seen2 @ [Rd R_ADC_DR ph_raw] @
              [Rd R_GPIOA_IDR idr] @ evs @
              [Rd R_GPIOA_ODR (GPIOA_ODR s), Wr R_GPIOA_ODR (GPIOA_ODR s XOR push_bit 5 1)]
         \<and> moisture_of raw = Inr m
         \<and> tdr_bytes evs = map of_char (json_text (sint m) 25 7 (if bit idr 4 then 0 else 1) 75)
         \<and> USART2_TDR_out s' =
             USART2_TDR_out s @ json_text (sint m) 25 7 (if bit idr 4 then 0 else 1) 75"
proof -
  from main_iteration_Inr [OF assms] obtain raw ph_raw idr m cr1 seen1 cr2 seen2 evs where
    f: "ADC_DR_in s = raw # ph_raw # ADC_DR_in s'" "GPIOA_IDR_in s = idr # GPIOA_IDR_in s'"
      "moisture_of raw = Inr m"
      "USART2_TDR_out s' = USART2_TDR_out s @ json_text (sint m) 25 7 (sint (rain_of idr)) 75"
      "trace s' = trace s @
              [Wr R_ADC_CHSELR 1, Rd R_ADC_CR cr1, Wr R_ADC_CR (cr1 OR 4)] @
              map (Rd R_ADC_ISR) seen1 @ [Rd R_ADC_DR raw] @
              [Wr R_ADC_CHSELR 2, Rd R_ADC_CR cr2, Wr R_ADC_CR (cr2 OR 4)] @
              map (Rd R_ADC_ISR) seen2 @ [Rd R_ADC_DR ph_raw] @
              [Rd R_GPIOA_IDR idr] @ evs @
              [Rd R_GPIOA_ODR (GPIOA_ODR s), Wr R_GPIOA_ODR (GPIOA_ODR s XOR 32)]"
      "tdr_bytes evs = map of_char (json_text (sint m) 25 7 (sint (rain_of idr)) 75)"
    by blast
  have "trace s' = trace s @
              [Wr R_ADC_CHSELR (push_bit 0 1), Rd R_ADC_CR cr1, Wr R_ADC_CR (cr1 OR push_bit 2 1)] @
              map (Rd R_ADC_ISR) seen1 @ [Rd R_ADC_DR raw] @
              [Wr R_ADC_CHSELR (push_bit 1 1), Rd R_ADC_CR cr2, Wr R_ADC_CR (cr2 OR push_bit 2 1)] @
              map (Rd R_ADC_ISR) seen2 @ [Rd R_ADC_DR ph_raw] @
              [Rd R_GPIOA_IDR idr] @ evs @
              [Rd R_GPIOA_ODR (GPIOA_ODR s), Wr R_GPIOA_ODR (GPIOA_ODR s XOR push_bit 5 1)]"
    using f(5) by simp
  with f(1-4,6) show ?thesis unfolding rain_of_sint by blast
qed

theorem record_fields_witness:
  "map_sum id USART2_TDR_out (main_iteration (bench [2048, 7] [0x10] 100)) = Inr (json_text 50 25 7 0 75)"
proof -
  let ?B = "bench [2048, 7] [0x10] 100"
  have "\<not> isl (main_iteration ?B)" by code_simp
  then obtain s' where s': "main_iteration ?B = Inr s'" by (cases "main_iteration ?B") auto
  have m: "moisture_of 2048 = Inr 50" by code_simp
  from record_fields [OF s'] m have "USART2_TDR_out s' = json_text 50 25 7 0 75"
    by (auto simp: bench_def)
  then show ?thesis by (simp add: s')
qed

text \<open>
  C7, as the specification has it: moisture is the only field computed from a
  sensor input. Two passes with the same conversion results and different
  levels of the rain pin send records that differ in the rain field.
\<close>

theorem rain_field_from_pin:
  "map_sum id USART2_TDR_out (main_iteration (bench [2048, 7] [0x10] 100)) = Inr (json_text 50 25 7 0 75)
   \<and> map_sum id USART2_TDR_out (main_iteration (bench [2048, 7] [0x00] 100)) = Inr (json_text 50 25 7 1 75)
   \<and> json_text 50 25 7 0 75 \<noteq> json_text 50 25 7 1 75"
  by code_simp

text \<open>
  C8. The start-up banner is one fixed line and is sent once, after the
  initialisation and before the loop. The accesses of a run of \<open>main\<close> with
  \<open>k\<close> passes are, in this order: those of the initialisation, which write
  nothing to the transmit data register and end with the read of the status
  register of the converter that shows it ready; those that send the banner
  and nothing else; those of the \<open>k\<close> passes, which send \<open>k\<close> records. The
  banner does not occur in the records, so it occurs once in what is sent, at
  the start.
\<close>

theorem banner_once:
  assumes "main k s = Inr s'"
  shows "\<exists>s0 s1 init_evs rdy banner_evs loop_evs recs.
           init_adc (init_usart (init_gpio (init_clocks s))) = Inr s0
         \<and> uart_puts banner (delay_ms 1000 s0) = Inr s1
         \<and> main_loop k s1 = Inr s'
         \<and> trace s' = trace s @ init_evs @ [Rd R_ADC_ISR rdy] @ banner_evs @ loop_evs
         \<and> trace s0 = trace s @ init_evs @ [Rd R_ADC_ISR rdy]
         \<and> trace s1 = trace s0 @ banner_evs
         \<and> rdy AND push_bit 0 1 \<noteq> 0
         \<and> tdr_bytes init_evs = []
         \<and> tdr_bytes banner_evs = map of_char banner
         \<and> tdr_bytes loop_evs = map of_char (concat recs)
         \<and> length recs = k
         \<and> (\<forall>r \<in> set recs. \<exists>m rn. r = json_text m 25 7 rn 75)
         \<and> USART2_TDR_out s' = USART2_TDR_out s @ banner @ concat recs
         \<and> occurrences banner (banner @ concat recs) = [0]"
proof -
  from assms obtain s1 where s1: "main_startup s = Inr s1" and l: "main_loop k s1 = Inr s'"
    by (auto simp: main_def bind_res_eq_Inr)
  from main_startup_Inr [OF s1] obtain s0 init_evs rdy banner_evs where
    s0: "init_adc (init_usart (init_gpio (init_clocks s))) = Inr s0"
      "uart_puts banner (delay_ms 1000 s0) = Inr s1"
      "trace s0 = trace s @ init_evs @ [Rd R_ADC_ISR rdy]" "rdy AND 1 \<noteq> 0"
      "tdr_bytes init_evs = []"
      "trace s1 = trace s0 @ banner_evs" "tdr_bytes banner_evs = map of_char banner"
      "USART2_TDR_out s1 = USART2_TDR_out s @ banner"
    by blast
  from main_loop_Inr [OF l] obtain recs loop_evs where
    recs: "USART2_TDR_out s' = USART2_TDR_out s1 @ concat recs" "length recs = k"
      "\<forall>r \<in> set recs. \<exists>m rn. r = json_text m 25 7 rn 75"
      "trace s' = trace s1 @ loop_evs" "tdr_bytes loop_evs = map of_char (concat recs)"
    by blast
  have "CHR ''S'' \<notin> set (concat recs)"
    using recs(3) json_text_no_S by fastforce
  moreover have "22 < length banner" "banner ! 22 = CHR ''S''" "CHR ''S'' \<notin> set (drop (Suc 22) banner)"
    by (simp_all add: banner_def)
  ultimately have occ: "occurrences banner (banner @ concat recs) = [0]"
    by (intro occurrences_once [where p = 22 and c = "CHR ''S''"])
  have tr: "trace s' = trace s @ init_evs @ [Rd R_ADC_ISR rdy] @ banner_evs @ loop_evs"
    by (simp add: recs(4) s0(6) s0(3))
  have tx: "USART2_TDR_out s' = USART2_TDR_out s @ banner @ concat recs"
    by (simp add: recs(1) s0(8))
  have rdy: "rdy AND push_bit 0 1 \<noteq> 0" using s0(4) by simp
  from s0(1,2) l tr s0(3,6) rdy s0(5,7) recs(5,2,3) tx occ show ?thesis by blast
qed

theorem banner_once_witness:
  "\<exists>s' recs. main 2 (bench [2048, 7, 4095, 9] [0x10, 0] 300) = Inr s'
     \<and> USART2_TDR_out s' = banner @ concat recs \<and> length recs = 2
     \<and> occurrences banner (banner @ concat recs) = [0]"
proof -
  let ?B = "bench [2048, 7, 4095, 9] [0x10, 0] 300"
  have "\<not> isl (main 2 ?B)" by code_simp
  then obtain s' where s': "main 2 ?B = Inr s'" by (cases "main 2 ?B") auto
  have "USART2_TDR_out ?B = []" by (simp add: bench_def)
  with banner_once [OF s'] s' show ?thesis by auto
qed

text \<open>
  C9. The toggle of the status indicator changes no bit of the output data
  register but bit 5, for every value of the register; so does a whole pass
  of the loop.
\<close>

theorem toggle_frame:
  assumes "n \<noteq> 5"
  shows "bit (GPIOA_ODR (toggle_led s)) n = bit (GPIOA_ODR s) n
       \<and> (main_iteration s = Inr s' \<longrightarrow> bit (GPIOA_ODR s') n = bit (GPIOA_ODR s) n)"
proof -
  have "bit (GPIOA_ODR s') n = bit (GPIOA_ODR s) n" if "main_iteration s = Inr s'"
  proof -
    from main_iteration_Inr [OF that] have "GPIOA_ODR s' = GPIOA_ODR (toggle_led s)" by blast
    then show ?thesis using assms by (simp only: toggle_bits) simp
  qed
  then show ?thesis using assms by (simp add: toggle_bits)
qed

theorem toggle_frame_witness:
  "(4::nat) \<noteq> 5
   \<and> bit (GPIOA_ODR (toggle_led (bench [2048, 7] [0x10] 100\<lparr>GPIOA_ODR := 0xFFFF\<rparr>))) 4
   \<and> map_sum id (\<lambda>s. bit (GPIOA_ODR s) 4) (main_iteration (bench [2048, 7] [0x10] 100\<lparr>GPIOA_ODR := 0xFFFF\<rparr>))
       = Inr True"
proof -
  let ?B = "bench [2048, 7] [0x10] 100\<lparr>GPIOA_ODR := 0xFFFF\<rparr>"
  have "\<not> isl (main_iteration ?B)" by code_simp
  then obtain s' where s': "main_iteration ?B = Inr s'" by (cases "main_iteration ?B") auto
  have b: "bit (GPIOA_ODR ?B) 4" by (simp add: bench_def)
  have n: "(4::nat) \<noteq> 5" by simp
  from toggle_frame [OF n, of ?B s'] s' b show ?thesis by simp
qed

text \<open>
  C10. For a raw reading between 0 and 4095 the product with 100 is at most
  409500, which lies in the range of a 32-bit \<^verbatim>\<open>int\<close>: the multiplication
  does not overflow, and the moisture computation returns the floor of
  \<open>raw * 100 / 4095\<close>.
\<close>

theorem moisture_no_overflow:
  assumes "0 \<le> sint raw" and "sint raw \<le> 4095"
  shows "sint raw * 100 \<le> 409500 \<and> 409500 \<le> INT_MAX
         \<and> (\<exists>p. c_int_of (sint raw * 100) = Inr p \<and> sint p = sint raw * 100)
         \<and> (\<exists>m. moisture_of raw = Inr m \<and> sint m = (sint raw * 100) div 4095)"
proof -
  have "INT_MIN \<le> sint raw * 100" "sint raw * 100 \<le> INT_MAX"
    using assms by (simp_all add: INT_MIN_def INT_MAX_def)
  then have "\<exists>p. c_int_of (sint raw * 100) = Inr p \<and> sint p = sint raw * 100"
    by (rule c_int_of_range)
  moreover have "sint raw * 100 \<le> 409500" using assms by simp
  moreover have "409500 \<le> INT_MAX" by (simp add: INT_MAX_def)
  ultimately show ?thesis using moisture_of_eq [OF assms] by blast
qed

theorem moisture_no_overflow_witness:
  "0 \<le> sint (4095 :: c_int) \<and> sint (4095 :: c_int) \<le> 4095
   \<and> (\<exists>m. moisture_of 4095 = Inr m \<and> sint m = 100)"
  using moisture_no_overflow [of 4095] by simp

end
